theory Spec2Isabelle
  imports Main
begin

section \<open>Lift simulation: data model of \<^verbatim>\<open>src/js/main.js\<close>\<close>

text \<open>
  The class \<^verbatim>\<open>LiftSimulation\<close> keeps, per lift, an object
  \<^verbatim>\<open>{ currentFloor, status }\<close> whose status is one of the two strings
  \<^verbatim>\<open>'idle'\<close> and \<^verbatim>\<open>'moving'\<close>; per floor index \<open>0 .. floors\<close> an object
  \<^verbatim>\<open>{ up, down }\<close>; and the array \<^verbatim>\<open>pendingCalls\<close> of objects
  \<^verbatim>\<open>{ floor, direction }\<close>.
\<close>

datatype status = Idle | Moving

record liftState =
  currentFloor :: int
  status :: status

datatype direction = Up | Down

record floorCall =
  up :: bool
  down :: bool

record call =
  floor :: int
  direction :: direction

text \<open>
  \<^verbatim>\<open>moveLift\<close> is an \<^verbatim>\<open>async\<close> function. Each activation is suspended at one
  of three \<^verbatim>\<open>await\<close>s on a timer: the travel time, the 2500 ms after the door
  class \<^verbatim>\<open>open\<close> is added, and the 2500 ms after it is removed. A suspended
  activation is a \<open>trip\<close>: the lift index and target floor it was called with, the
  \<^verbatim>\<open>await\<close> it waits at, and the delay of the timer it waits for.
\<close>

datatype phase = AwaitMove | AwaitOpen | AwaitClose

record trip =
  liftIndex :: nat
  targetFloor :: int
  phase :: phase
  timer :: int

record state =
  floors :: int
  lifts :: int
  liftStates :: "liftState list"
  floorCalls :: "floorCall list"
  pendingCalls :: "call list"
  trips :: "trip list"

datatype error = TypeError | RangeError

text \<open>
  A handler that throws leaves the object as it was at the throw: \<open>Inl (e, s)\<close> is
  "threw \<open>e\<close> with the state \<open>s\<close> left behind", \<open>Inr s\<close> is a normal return.
\<close>

type_synonym outcome = "(error \<times> state) + state"

fun state_of :: "outcome \<Rightarrow> state" where
  "state_of (Inl (e, s)) = s"
| "state_of (Inr s) = s"

subsection \<open>\<^verbatim>\<open>findNearestIdleLift\<close> (main.js 113-128)\<close>

text \<open>\<^verbatim>\<open>minDistance\<close> starts as \<^verbatim>\<open>Infinity\<close>, here \<open>None\<close>.\<close>

fun less_minDistance :: "int \<Rightarrow> int option \<Rightarrow> bool" where
  "less_minDistance distance None = True"
| "less_minDistance distance (Some m) = (distance < m)"

text \<open>
  The loop \<^verbatim>\<open>for (let i = 0; i < this.lifts; i++)\<close>. Reading
  \<^verbatim>\<open>this.liftStates[i].status\<close> beyond the array throws a TypeError.
\<close>

function findLoop :: "state \<Rightarrow> int \<Rightarrow> nat \<Rightarrow> int \<Rightarrow> int option \<Rightarrow> error + int" where
  "findLoop s f i nearestLift minDistance =
     (if int i < lifts s then
        (if i < length (liftStates s) then
           (if status (liftStates s ! i) = Idle then
              (let distance = \<bar>currentFloor (liftStates s ! i) - f\<bar> in
               if less_minDistance distance minDistance
               then findLoop s f (Suc i) (int i) (Some distance)
               else findLoop s f (Suc i) nearestLift minDistance)
            else findLoop s f (Suc i) nearestLift minDistance)
         else Inl TypeError)
      else Inr nearestLift)"
  by pat_completeness auto
termination
  by (relation "measure (\<lambda>(s, f, i, n, m). nat (lifts s) - i)") auto

definition findNearestIdleLift :: "state \<Rightarrow> int \<Rightarrow> error + int" where
  "findNearestIdleLift s f = findLoop s f 0 (- 1) None"

subsection \<open>\<^verbatim>\<open>moveLift\<close> (main.js 135-178)\<close>

text \<open>
  The synchronous prefix, up to the first \<^verbatim>\<open>await\<close>: the status becomes
  \<^verbatim>\<open>'moving'\<close> and the activation waits \<open>|targetFloor - currentFloor| * 2000\<close> ms.
  An exception inside an \<^verbatim>\<open>async\<close> function rejects its promise and is not
  thrown to the caller, so with no such lift object nothing changes.
\<close>

definition moveLift :: "state \<Rightarrow> int \<Rightarrow> int \<Rightarrow> state" where
  "moveLift s li tf =
     (if 0 \<le> li \<and> nat li < length (liftStates s) then
        (let liftState = liftStates s ! nat li;
             floorsToMove = \<bar>tf - currentFloor liftState\<bar>;
             moveTime = floorsToMove * 2000
         in s\<lparr>liftStates := (liftStates s)[nat li := liftState\<lparr>status := Moving\<rparr>],
              trips := trips s @
                [\<lparr>liftIndex = nat li, targetFloor = tf, phase = AwaitMove, timer = moveTime\<rparr>]\<rparr>)
      else s)"

subsection \<open>\<^verbatim>\<open>checkPendingCalls\<close> (main.js 208-219)\<close>

definition checkPendingCalls :: "state \<Rightarrow> outcome" where
  "checkPendingCalls s =
     (case pendingCalls s of
        [] \<Rightarrow> Inr s
      | nextCall # rest \<Rightarrow>
          (let s1 = s\<lparr>pendingCalls := rest\<rparr> in
           case findNearestIdleLift s1 (floor nextCall) of
             Inl e \<Rightarrow> Inl (e, s1)
           | Inr nearestLift \<Rightarrow>
               if nearestLift \<noteq> - 1 then Inr (moveLift s1 nearestLift (floor nextCall))
               else Inr (s1\<lparr>pendingCalls := nextCall # pendingCalls s1\<rparr>)))"

subsection \<open>\<^verbatim>\<open>callLift\<close> (main.js 91-106)\<close>

fun getFlag :: "floorCall \<Rightarrow> direction \<Rightarrow> bool" where
  "getFlag fc Up = up fc"
| "getFlag fc Down = down fc"

fun setFlag :: "floorCall \<Rightarrow> direction \<Rightarrow> bool \<Rightarrow> floorCall" where
  "setFlag fc Up b = fc\<lparr>up := b\<rparr>"
| "setFlag fc Down b = fc\<lparr>down := b\<rparr>"

text \<open>
  \<^verbatim>\<open>this.floorCalls[floor]\<close> is \<^verbatim>\<open>undefined\<close> outside the array, and reading
  a property of it throws before anything is changed.
\<close>

definition callLift :: "state \<Rightarrow> int \<Rightarrow> direction \<Rightarrow> outcome" where
  "callLift s f d =
     (if 0 \<le> f \<and> nat f < length (floorCalls s) then
        (if \<not> getFlag (floorCalls s ! nat f) d then
           (let s1 = s\<lparr>floorCalls := (floorCalls s)[nat f := setFlag (floorCalls s ! nat f) d True]\<rparr> in
            case findNearestIdleLift s1 f of
              Inl e \<Rightarrow> Inl (e, s1)
            | Inr nearestLift \<Rightarrow>
                if nearestLift \<noteq> - 1 then Inr (moveLift s1 nearestLift f)
                else Inr (s1\<lparr>pendingCalls := pendingCalls s1 @ [\<lparr>floor = f, direction = d\<rparr>]\<rparr>))
         else Inr s)
      else Inl (TypeError, s))"

subsection \<open>The rest of \<^verbatim>\<open>moveLift\<close>: what runs when a timer fires\<close>

text \<open>
  \<open>timerFires s k\<close> resumes the \<open>k\<close>-th suspended activation.
  After the travel timer (main.js 156-159) the lift's \<^verbatim>\<open>currentFloor\<close> becomes the
  target and the doors get the class \<^verbatim>\<open>open\<close>; after the first door timer
  (196-202) the class is removed; after the second (161-177) the status becomes
  \<^verbatim>\<open>'idle'\<close>, both flags of the target floor are set to \<^verbatim>\<open>false\<close> and
  \<^verbatim>\<open>checkPendingCalls\<close> runs. The activation reads its lift object before it
  first suspends, so an activation without a lift object does not exist; the model
  leaves the state alone there, as it does when no \<open>k\<close>-th activation exists.
\<close>

definition timerFires :: "state \<Rightarrow> nat \<Rightarrow> outcome" where
  "timerFires s k =
     (if k < length (trips s) \<and> liftIndex (trips s ! k) < length (liftStates s) then
        (let t = trips s ! k; i = liftIndex t; liftState = liftStates s ! i in
         case phase t of
           AwaitMove \<Rightarrow>
             Inr (s\<lparr>liftStates := (liftStates s)[i := liftState\<lparr>currentFloor := targetFloor t\<rparr>],
                    trips := (trips s)[k := t\<lparr>phase := AwaitOpen, timer := 2500\<rparr>]\<rparr>)
         | AwaitOpen \<Rightarrow>
             Inr (s\<lparr>trips := (trips s)[k := t\<lparr>phase := AwaitClose, timer := 2500\<rparr>]\<rparr>)
         | AwaitClose \<Rightarrow>
             (let s1 = s\<lparr>liftStates := (liftStates s)[i := liftState\<lparr>status := Idle\<rparr>],
                         trips := take k (trips s) @ drop (Suc k) (trips s)\<rparr>
              in if 0 \<le> targetFloor t \<and> nat (targetFloor t) < length (floorCalls s1) then
                   checkPendingCalls
                     (s1\<lparr>floorCalls := (floorCalls s1)[nat (targetFloor t) :=
                           (floorCalls s1 ! nat (targetFloor t))\<lparr>up := False, down := False\<rparr>]\<rparr>)
                 else Inl (TypeError, s1)))
      else Inr s)"

subsection \<open>The constructor (main.js 11-17)\<close>

text \<open>\<^verbatim>\<open>Array(n)\<close> throws a RangeError unless \<open>0 \<le> n < 2^32\<close>.\<close>

definition LiftSimulation_new :: "int \<Rightarrow> int \<Rightarrow> error + state" where
  "LiftSimulation_new nf nl =
     (if nl < 0 \<or> 4294967296 \<le> nl \<or> nf + 1 < 0 \<or> 4294967296 \<le> nf + 1 then Inl RangeError
      else Inr \<lparr>floors = nf, lifts = nl,
                liftStates = replicate (nat nl) \<lparr>currentFloor = 1, status = Idle\<rparr>,
                floorCalls = replicate (nat (nf + 1)) \<lparr>up = False, down = False\<rparr>,
                pendingCalls = [], trips = []\<rparr>)"

subsection \<open>Events\<close>

text \<open>
  \<^verbatim>\<open>renderSimulation\<close> (main.js 36-43) creates, on floor \<open>i\<close> of \<open>1 .. floors\<close>,
  an up button when \<open>i < floors\<close> and a down button when \<open>1 < i\<close>;
  \<^verbatim>\<open>attachEventListeners\<close> (72-84) makes a click call \<^verbatim>\<open>callLift\<close>.
  JavaScript runs one handler at a time, so an event is one atomic step: a click
  on a button, or a timer that resumes a suspended activation. The order in which
  timers fire is left open.
\<close>

datatype event = Click int direction | Timer nat

definition button_exists :: "state \<Rightarrow> int \<Rightarrow> direction \<Rightarrow> bool" where
  "button_exists s f d =
     (1 \<le> f \<and> f \<le> floors s \<and> (case d of Up \<Rightarrow> f < floors s | Down \<Rightarrow> 1 < f))"

fun valid_event :: "state \<Rightarrow> event \<Rightarrow> bool" where
  "valid_event s (Click f d) = button_exists s f d"
| "valid_event s (Timer k) = (k < length (trips s))"

fun step :: "state \<Rightarrow> event \<Rightarrow> state" where
  "step s (Click f d) = state_of (callLift s f d)"
| "step s (Timer k) = state_of (timerFires s k)"

fun run :: "state \<Rightarrow> event list \<Rightarrow> state" where
  "run s [] = s"
| "run s (e # es) = run (step s e) es"

fun valid_run :: "state \<Rightarrow> event list \<Rightarrow> bool" where
  "valid_run s [] = True"
| "valid_run s (e # es) = (valid_event s e \<and> valid_run (step s e) es)"

inductive reachable :: "state \<Rightarrow> bool" where
  init: "LiftSimulation_new nf nl = Inr s \<Longrightarrow> reachable s"
| next_event: "reachable s \<Longrightarrow> valid_event s e \<Longrightarrow> reachable (step s e)"

subsection \<open>The start button (main.js 223-240)\<close>

text \<open>
  \<^verbatim>\<open>parseInt\<close> of the two input fields gives an integer or \<^verbatim>\<open>NaN\<close>, here
  \<open>None\<close>. The page holds the text of \<^verbatim>\<open>#error-message\<close> and the simulation
  that was constructed last, if any.
\<close>

record page =
  errorMessage :: string
  simulation :: "state option"

fun outside :: "int option \<Rightarrow> int \<Rightarrow> int \<Rightarrow> bool" where
  "outside None lo hi = True"
| "outside (Some n) lo hi = (n < lo \<or> n > hi)"

definition startSimulation :: "int option \<Rightarrow> int option \<Rightarrow> page \<Rightarrow> page" where
  "startSimulation floorsIn liftsIn p =
     (if outside floorsIn 2 9
      then p\<lparr>errorMessage := ''Please enter a valid number of floors (2-9).''\<rparr>
      else if outside liftsIn 1 5
      then p\<lparr>errorMessage := ''Please enter a valid number of lifts (1-5).''\<rparr>
      else (case (floorsIn, liftsIn) of
              (Some nf, Some nl) \<Rightarrow>
                (case LiftSimulation_new nf nl of
                   Inr s \<Rightarrow> p\<lparr>errorMessage := [], simulation := Some s\<rparr>
                 | Inl e \<Rightarrow> p\<lparr>errorMessage := []\<rparr>)
            | _ \<Rightarrow> p))"

section \<open>The other copies of the program in the repository\<close>

subsection \<open>The second class in main.js (lines 249-445)\<close>

text \<open>
  After line 249 the file holds an earlier \<^verbatim>\<open>LiftSimulation\<close>. Its
  \<^verbatim>\<open>findNearestIdleLift\<close>, \<^verbatim>\<open>moveLift\<close> and \<^verbatim>\<open>checkPendingCalls\<close> do what
  the ones above do; its \<^verbatim>\<open>callLift\<close> (336-345) sets the flag without reading it.
\<close>

definition callLift_unguarded :: "state \<Rightarrow> int \<Rightarrow> direction \<Rightarrow> outcome" where
  "callLift_unguarded s f d =
     (if 0 \<le> f \<and> nat f < length (floorCalls s) then
        (let s1 = s\<lparr>floorCalls := (floorCalls s)[nat f := setFlag (floorCalls s ! nat f) d True]\<rparr> in
         case findNearestIdleLift s1 f of
           Inl e \<Rightarrow> Inl (e, s1)
         | Inr nearestLift \<Rightarrow>
             if nearestLift \<noteq> - 1 then Inr (moveLift s1 nearestLift f)
             else Inr (s1\<lparr>pendingCalls := pendingCalls s1 @ [\<lparr>floor = f, direction = d\<rparr>]\<rparr>))
      else Inl (TypeError, s))"

subsection \<open>The class in \<^verbatim>\<open>part_002\<close>\<close>

text \<open>
  This copy has no \<^verbatim>\<open>pendingCalls\<close> (the field stays empty here). Its
  \<^verbatim>\<open>callLift\<close> (59-65) does nothing more when no lift is idle, and its
  \<^verbatim>\<open>moveLift\<close> (84-104) sets the status to \<^verbatim>\<open>'idle'\<close> on arrival, before the
  doors open; the prefix of \<^verbatim>\<open>moveLift\<close> is the one above.
\<close>

definition callLift_part002 :: "state \<Rightarrow> int \<Rightarrow> direction \<Rightarrow> outcome" where
  "callLift_part002 s f d =
     (if 0 \<le> f \<and> nat f < length (floorCalls s) then
        (let s1 = s\<lparr>floorCalls := (floorCalls s)[nat f := setFlag (floorCalls s ! nat f) d True]\<rparr> in
         case findNearestIdleLift s1 f of
           Inl e \<Rightarrow> Inl (e, s1)
         | Inr nearestLift \<Rightarrow>
             if nearestLift \<noteq> - 1 then Inr (moveLift s1 nearestLift f) else Inr s1)
      else Inl (TypeError, s))"

definition timerFires_part002 :: "state \<Rightarrow> nat \<Rightarrow> outcome" where
  "timerFires_part002 s k =
     (if k < length (trips s) \<and> liftIndex (trips s ! k) < length (liftStates s) then
        (let t = trips s ! k; i = liftIndex t; liftState = liftStates s ! i in
         case phase t of
           AwaitMove \<Rightarrow>
             Inr (s\<lparr>liftStates := (liftStates s)[i := liftState\<lparr>currentFloor := targetFloor t, status := Idle\<rparr>],
                    trips := (trips s)[k := t\<lparr>phase := AwaitOpen, timer := 2500\<rparr>]\<rparr>)
         | AwaitOpen \<Rightarrow>
             Inr (s\<lparr>trips := (trips s)[k := t\<lparr>phase := AwaitClose, timer := 2500\<rparr>]\<rparr>)
         | AwaitClose \<Rightarrow>
             (let s1 = s\<lparr>trips := take k (trips s) @ drop (Suc k) (trips s)\<rparr>
              in if 0 \<le> targetFloor t \<and> nat (targetFloor t) < length (floorCalls s1) then
                   Inr (s1\<lparr>floorCalls := (floorCalls s1)[nat (targetFloor t) :=
                           (floorCalls s1 ! nat (targetFloor t))\<lparr>up := False, down := False\<rparr>]\<rparr>)
                 else Inl (TypeError, s1)))
      else Inr s)"

fun step_part002 :: "state \<Rightarrow> event \<Rightarrow> state" where
  "step_part002 s (Click f d) = state_of (callLift_part002 s f d)"
| "step_part002 s (Timer k) = state_of (timerFires_part002 s k)"

fun run_part002 :: "state \<Rightarrow> event list \<Rightarrow> state" where
  "run_part002 s [] = s"
| "run_part002 s (e # es) = run_part002 (step_part002 s e) es"

fun valid_run_part002 :: "state \<Rightarrow> event list \<Rightarrow> bool" where
  "valid_run_part002 s [] = True"
| "valid_run_part002 s (e # es) = (valid_event s e \<and> valid_run_part002 (step_part002 s e) es)"

subsection \<open>The start button of the functional copy (\<^verbatim>\<open>part_001\<close>, lines 247-263)\<close>

text \<open>
  \<^verbatim>\<open>createInitialState\<close> (lines 7-15 there and in \<^verbatim>\<open>main_functional.js\<close>) builds the
  object the constructor builds.
\<close>

definition createInitialState :: "int \<Rightarrow> int \<Rightarrow> error + state" where
  "createInitialState nf nl =
     (if nl < 0 \<or> 4294967296 \<le> nl \<or> nf + 1 < 0 \<or> 4294967296 \<le> nf + 1 then Inl RangeError
      else Inr \<lparr>floors = nf, lifts = nl,
                liftStates = replicate (nat nl) \<lparr>currentFloor = 1, status = Idle\<rparr>,
                floorCalls = replicate (nat (nf + 1)) \<lparr>up = False, down = False\<rparr>,
                pendingCalls = [], trips = []\<rparr>)"

fun below :: "int option \<Rightarrow> int \<Rightarrow> bool" where
  "below None lo = True"
| "below (Some n) lo = (n < lo)"

definition startSimulation_part001 :: "int option \<Rightarrow> int option \<Rightarrow> page \<Rightarrow> page" where
  "startSimulation_part001 floorsIn liftsIn p =
     (if below floorsIn 2
      then p\<lparr>errorMessage := ''Please enter a valid number of floors (Atleast 2).''\<rparr>
      else if below liftsIn 1
      then p\<lparr>errorMessage := ''Please enter a valid number of lifts (Atleast 1).''\<rparr>
      else (case (floorsIn, liftsIn) of
              (Some nf, Some nl) \<Rightarrow>
                (case createInitialState nf nl of
                   Inr s \<Rightarrow> p\<lparr>errorMessage := [], simulation := Some s\<rparr>
                 | Inl e \<Rightarrow> p\<lparr>errorMessage := []\<rparr>)
            | _ \<Rightarrow> p))"

section \<open>Predicates used in the statements\<close>

text \<open>
  \<open>wf_lifts\<close>: the array \<^verbatim>\<open>liftStates\<close> has \<^verbatim>\<open>lifts\<close> entries, as the constructor
  makes it. \<open>nearest_idle s f k\<close>: lift \<open>k\<close> is idle, no idle lift is nearer to floor
  \<open>f\<close>, and every idle lift before \<open>k\<close> is strictly farther. \<open>flagAt\<close> reads the
  registry; \<open>queued_active\<close> says that every queued call has its flag set.
  \<open>core_inv\<close> and \<open>state_inv\<close> collect the facts that hold in every reachable state.
\<close>

definition wf_lifts :: "state \<Rightarrow> bool" where
  "wf_lifts s = (int (length (liftStates s)) = lifts s)"

definition idle_at :: "state \<Rightarrow> nat \<Rightarrow> bool" where
  "idle_at s j = (status (liftStates s ! j) = Idle)"

definition some_idle :: "state \<Rightarrow> bool" where
  "some_idle s = (\<exists>j < length (liftStates s). idle_at s j)"

definition distance_to :: "state \<Rightarrow> int \<Rightarrow> nat \<Rightarrow> int" where
  "distance_to s f j = \<bar>currentFloor (liftStates s ! j) - f\<bar>"

definition nearest_idle :: "state \<Rightarrow> int \<Rightarrow> nat \<Rightarrow> bool" where
  "nearest_idle s f k =
     (k < length (liftStates s) \<and> idle_at s k \<and>
      (\<forall>j < length (liftStates s). idle_at s j \<longrightarrow> distance_to s f k \<le> distance_to s f j) \<and>
      (\<forall>j < k. idle_at s j \<longrightarrow> distance_to s f k < distance_to s f j))"

definition find_inv :: "state \<Rightarrow> int \<Rightarrow> nat \<Rightarrow> int \<Rightarrow> int option \<Rightarrow> bool" where
  "find_inv s f i n m =
     (case m of
        None \<Rightarrow> n = - 1 \<and> (\<forall>j < i. \<not> idle_at s j)
      | Some md \<Rightarrow> (\<exists>k < i. n = int k \<and> idle_at s k \<and> md = distance_to s f k \<and>
            (\<forall>j < i. idle_at s j \<longrightarrow> distance_to s f k \<le> distance_to s f j) \<and>
            (\<forall>j < k. idle_at s j \<longrightarrow> distance_to s f k < distance_to s f j)))"

definition flagAt :: "state \<Rightarrow> int \<Rightarrow> direction \<Rightarrow> bool" where
  "flagAt s f d = (0 \<le> f \<and> nat f < length (floorCalls s) \<and> getFlag (floorCalls s ! nat f) d)"


definition core_inv :: "state \<Rightarrow> bool" where
  "core_inv s =
     (wf_lifts s \<and> int (length (floorCalls s)) = floors s + 1 \<and>
      (\<forall>t \<in> set (trips s). liftIndex t < length (liftStates s) \<and>
                             1 \<le> targetFloor t \<and> targetFloor t \<le> floors s) \<and>
      (\<forall>c \<in> set (pendingCalls s). 1 \<le> floor c \<and> floor c \<le> floors s) \<and>
      distinct (map liftIndex (trips s)) \<and>
      (\<forall>i < length (liftStates s). (status (liftStates s ! i) = Moving) = (i \<in> liftIndex ` set (trips s))))"

definition state_inv :: "state \<Rightarrow> bool" where
  "state_inv s = (core_inv s \<and> (pendingCalls s \<noteq> [] \<longrightarrow> \<not> some_idle s))"


text \<open>The state in which the last door timer of activation \<open>k\<close> leaves the lift,
  before \<^verbatim>\<open>checkPendingCalls\<close> runs (main.js 161-168).\<close>

definition arrived :: "state \<Rightarrow> nat \<Rightarrow> state" where
  "arrived s k =
     (let t = trips s ! k; i = liftIndex t; g = nat (targetFloor t) in
      s\<lparr>liftStates := (liftStates s)[i := (liftStates s ! i)\<lparr>status := Idle\<rparr>],
        trips := take k (trips s) @ drop (Suc k) (trips s),
        floorCalls := (floorCalls s)[g := (floorCalls s ! g)\<lparr>up := False, down := False\<rparr>]\<rparr>)"

subsection \<open>Example states\<close>

text \<open>Nine floors, two idle lifts resting at floors 3 and 7.\<close>

definition lifts_at_3_7 :: state where
  "lifts_at_3_7 =
     \<lparr>floors = 9, lifts = 2,
      liftStates = [\<lparr>currentFloor = 3, status = Idle\<rparr>, \<lparr>currentFloor = 7, status = Idle\<rparr>],
      floorCalls = [\<lparr>up = False, down = False\<rparr>, \<lparr>up = False, down = False\<rparr>,
                    \<lparr>up = False, down = False\<rparr>, \<lparr>up = False, down = False\<rparr>,
                    \<lparr>up = False, down = False\<rparr>, \<lparr>up = False, down = False\<rparr>,
                    \<lparr>up = False, down = False\<rparr>, \<lparr>up = False, down = False\<rparr>,
                    \<lparr>up = False, down = False\<rparr>, \<lparr>up = False, down = False\<rparr>],
      pendingCalls = [], trips = []\<rparr>"

text \<open>Three floors and one lift, as the constructor returns it.\<close>

definition sim_3_1 :: state where
  "sim_3_1 =
     \<lparr>floors = 3, lifts = 1,
      liftStates = [\<lparr>currentFloor = 1, status = Idle\<rparr>],
      floorCalls = [\<lparr>up = False, down = False\<rparr>, \<lparr>up = False, down = False\<rparr>,
                    \<lparr>up = False, down = False\<rparr>, \<lparr>up = False, down = False\<rparr>],
      pendingCalls = [], trips = []\<rparr>"

text \<open>
  The calls that the events of a run append to the queue, and the calls they remove
  from its front, each in the order of the events.
\<close>

fun arrivals :: "state \<Rightarrow> event list \<Rightarrow> call list" where
  "arrivals s [] = []"
| "arrivals s (e # es) =
     (if length (pendingCalls s) < length (pendingCalls (step s e))
      then [last (pendingCalls (step s e))] else []) @ arrivals (step s e) es"

fun served :: "state \<Rightarrow> event list \<Rightarrow> call list" where
  "served s [] = []"
| "served s (e # es) =
     (if length (pendingCalls (step s e)) < length (pendingCalls s)
      then [hd (pendingCalls s)] else []) @ served (step s e) es"

text \<open>Nine floors and one lift, as the constructor returns it.\<close>

definition sim_9_1 :: state where
  "sim_9_1 =
     \<lparr>floors = 9, lifts = 1,
      liftStates = [\<lparr>currentFloor = 1, status = Idle\<rparr>],
      floorCalls = [\<lparr>up = False, down = False\<rparr>, \<lparr>up = False, down = False\<rparr>,
                    \<lparr>up = False, down = False\<rparr>, \<lparr>up = False, down = False\<rparr>,
                    \<lparr>up = False, down = False\<rparr>, \<lparr>up = False, down = False\<rparr>,
                    \<lparr>up = False, down = False\<rparr>, \<lparr>up = False, down = False\<rparr>,
                    \<lparr>up = False, down = False\<rparr>, \<lparr>up = False, down = False\<rparr>],
      pendingCalls = [], trips = []\<rparr>"

text \<open>Three floors and two lifts, as the constructor returns it.\<close>

definition sim_3_2 :: state where
  "sim_3_2 =
     \<lparr>floors = 3, lifts = 2,
      liftStates = [\<lparr>currentFloor = 1, status = Idle\<rparr>, \<lparr>currentFloor = 1, status = Idle\<rparr>],
      floorCalls = [\<lparr>up = False, down = False\<rparr>, \<lparr>up = False, down = False\<rparr>,
                    \<lparr>up = False, down = False\<rparr>, \<lparr>up = False, down = False\<rparr>],
      pendingCalls = [], trips = []\<rparr>"

text \<open>One lift is sent to floor 3; while it is busy floors 4, 2 and 7 are requested, in
  this order; then nine timers fire, three for each of three trips.\<close>

definition fifo_events :: "event list" where
  "fifo_events = [Click 3 Up, Click 4 Up, Click 2 Up, Click 7 Up, Timer 0, Timer 0, Timer 0,
        Timer 0, Timer 0, Timer 0, Timer 0, Timer 0, Timer 0]"


text \<open>The same lift with two calls queued behind that trip, and with its last door timer due.\<close>

definition two_queued :: state where
  "two_queued = run sim_3_1 [Click 2 Up, Click 3 Down, Click 2 Down, Timer 0, Timer 0]"

text \<open>The state \<open>two_queued\<close> after the last door timer: the lift has left for floor 3 with
  the call for floor 2 still queued.\<close>

definition served_floor_still_queued :: state where
  "served_floor_still_queued = step two_queued (Timer 0)"



text \<open>\<open>with_floorCalls fc\<close> replaces the registry in the state a handler leaves behind.\<close>

fun with_floorCalls :: "floorCall list \<Rightarrow> outcome \<Rightarrow> outcome" where
  "with_floorCalls fc (Inl (e, s)) = Inl (e, s\<lparr>floorCalls := fc\<rparr>)"
| "with_floorCalls fc (Inr s) = Inr (s\<lparr>floorCalls := fc\<rparr>)"

text \<open>The state \<open>served_floor_still_queued\<close> when the last door timer of the trip to floor 3
  is due: the call (2, down) is queued and its flag is false.\<close>

definition stale_call_due :: state where
  "stale_call_due = run served_floor_still_queued [Timer 0, Timer 0]"

text \<open>Two lifts; the up button of floor 2 has been clicked once, handled by the
  \<^verbatim>\<open>callLift\<close> of the second class in main.js.\<close>

definition pressed_once :: state where
  "pressed_once = state_of (callLift_unguarded sim_3_2 2 Up)"

text \<open>In the copy \<^verbatim>\<open>part_002\<close>: one lift, called to floor 2, has arrived there and its doors
  are opening; then the down button of floor 3 is clicked.\<close>

definition doors_opening_part002 :: state where
  "doors_opening_part002 = run_part002 sim_3_1 [Click 2 Up, Timer 0]"

definition redispatched_part002 :: state where
  "redispatched_part002 = run_part002 sim_3_1 [Click 2 Up, Timer 0, Click 3 Down]"

text \<open>The states the copy \<^verbatim>\<open>part_002\<close> can reach, and what holds in them: an activation is
  travelling while it waits for its travel timer.\<close>

inductive reachable_part002 :: "state \<Rightarrow> bool" where
  init_part002: "LiftSimulation_new nf nl = Inr s \<Longrightarrow> reachable_part002 s"
| next_part002: "reachable_part002 s \<Longrightarrow> valid_event s e \<Longrightarrow> reachable_part002 (step_part002 s e)"

definition travelling :: "trip \<Rightarrow> bool" where
  "travelling t = (phase t = AwaitMove)"

definition inv_part002 :: "state \<Rightarrow> bool" where
  "inv_part002 s =
     (wf_lifts s \<and> (\<forall>t \<in> set (trips s). liftIndex t < length (liftStates s)) \<and>
      distinct (map liftIndex (filter travelling (trips s))) \<and>
      (\<forall>i < length (liftStates s).
          (status (liftStates s ! i) = Moving) = (i \<in> liftIndex ` set (filter travelling (trips s)))))"

text \<open>\<open>dispatched_idle a a'\<close>: from \<open>a\<close> to \<open>a'\<close> no lift was dispatched, or one lift was,
  which was idle in \<open>a\<close>.\<close>

definition dispatched_idle :: "state \<Rightarrow> state \<Rightarrow> bool" where
  "dispatched_idle a a' =
     ((trips a' = trips a \<and> liftStates a' = liftStates a) \<or>
      (\<exists>i f. i < length (liftStates a) \<and> idle_at a i \<and>
         trips a' = trips a @ [\<lparr>liftIndex = i, targetFloor = f, phase = AwaitMove,
                                 timer = \<bar>f - currentFloor (liftStates a ! i)\<bar> * 2000\<rparr>] \<and>
         liftStates a' = (liftStates a)[i := (liftStates a ! i)\<lparr>status := Moving\<rparr>]))"

text \<open>A page on which nothing has been started.\<close>

definition empty_page :: page where
  "empty_page = \<lparr>errorMessage = [], simulation = None\<rparr>"

section \<open>Nearest idle lift\<close>

declare findLoop.simps [simp del]

lemma findLoop_done: "\<not> int i < lifts s \<Longrightarrow> findLoop s f i n m = Inr n"
  by (subst findLoop.simps) simp

lemma findLoop_skip:
  "int i < lifts s \<Longrightarrow> i < length (liftStates s) \<Longrightarrow> status (liftStates s ! i) \<noteq> Idle \<Longrightarrow>
   findLoop s f i n m = findLoop s f (Suc i) n m"
  by (subst findLoop.simps) simp

lemma findLoop_take:
  "int i < lifts s \<Longrightarrow> i < length (liftStates s) \<Longrightarrow> status (liftStates s ! i) = Idle \<Longrightarrow>
   less_minDistance \<bar>currentFloor (liftStates s ! i) - f\<bar> m \<Longrightarrow>
   findLoop s f i n m = findLoop s f (Suc i) (int i) (Some \<bar>currentFloor (liftStates s ! i) - f\<bar>)"
  by (subst findLoop.simps) (simp add: Let_def)

lemma findLoop_keep:
  "int i < lifts s \<Longrightarrow> i < length (liftStates s) \<Longrightarrow> status (liftStates s ! i) = Idle \<Longrightarrow>
   \<not> less_minDistance \<bar>currentFloor (liftStates s ! i) - f\<bar> m \<Longrightarrow>
   findLoop s f i n m = findLoop s f (Suc i) n m"
  by (subst findLoop.simps) (simp add: Let_def)

lemma findLoop_inv:
  "wf_lifts s \<Longrightarrow> i \<le> length (liftStates s) \<Longrightarrow> find_inv s f i n m \<Longrightarrow>
   \<exists>r m'. findLoop s f i n m = Inr r \<and> find_inv s f (length (liftStates s)) r m'"
proof (induction s f i n m rule: findLoop.induct)
  case (1 s f i n m)
  show ?case
  proof (cases "i < length (liftStates s)")
    case False
    with "1.prems" have e: "i = length (liftStates s)" by simp
    then have "\<not> int i < lifts s" using "1.prems"(1) by (simp add: wf_lifts_def)
    then have "findLoop s f i n m = Inr n" by (rule findLoop_done)
    with "1.prems"(3) e show ?thesis by blast
  next
    case True
    then have lt: "int i < lifts s" using "1.prems" by (simp add: wf_lifts_def)
    from True have le: "Suc i \<le> length (liftStates s)" by simp
    show ?thesis
    proof (cases "idle_at s i")
      case False
      then have st: "status (liftStates s ! i) \<noteq> Idle" by (simp add: idle_at_def)
      have "find_inv s f (Suc i) n m"
        using "1.prems"(3) False
        by (auto simp: find_inv_def less_Suc_eq split: option.splits)
      from "1.IH"(3)[OF lt True st "1.prems"(1) le this]
      show ?thesis by (simp add: findLoop_skip[OF lt True st])
    next
      case idle: True
      then have st: "status (liftStates s ! i) = Idle" by (simp add: idle_at_def)
      let ?d = "\<bar>currentFloor (liftStates s ! i) - f\<bar>"
      have d: "?d = distance_to s f i" by (simp add: distance_to_def)
      show ?thesis
      proof (cases "less_minDistance ?d m")
        case less: True
        have "find_inv s f (Suc i) (int i) (Some ?d)"
          using "1.prems"(3) less idle d
          by (cases m) (auto simp: find_inv_def less_Suc_eq)
        from "1.IH"(1)[OF lt True st refl less "1.prems"(1) le this]
        show ?thesis by (simp add: findLoop_take[OF lt True st less])
      next
        case False
        have "find_inv s f (Suc i) n m"
          using "1.prems"(3) False idle d
          by (cases m) (auto simp: find_inv_def less_Suc_eq)
        from "1.IH"(2)[OF lt True st refl False "1.prems"(1) le this]
        show ?thesis by (simp add: findLoop_keep[OF lt True st False])
      qed
    qed
  qed
qed

lemma find_cases:
  assumes "wf_lifts s"
  shows "(\<not> some_idle s \<and> findNearestIdleLift s f = Inr (- 1)) \<or>
         (\<exists>i. nearest_idle s f i \<and> findNearestIdleLift s f = Inr (int i))"
proof -
  have "find_inv s f 0 (- 1) None" by (simp add: find_inv_def)
  from findLoop_inv[OF assms _ this]
  obtain r m' where r: "findLoop s f 0 (- 1) None = Inr r"
    and fi: "find_inv s f (length (liftStates s)) r m'" by auto
  show ?thesis
  proof (cases m')
    case None
    with fi r show ?thesis by (auto simp: find_inv_def findNearestIdleLift_def some_idle_def)
  next
    case (Some md)
    with fi r show ?thesis
      by (auto simp: find_inv_def findNearestIdleLift_def nearest_idle_def)
  qed
qed

lemma nearest_idle_some: "nearest_idle s f i \<Longrightarrow> some_idle s"
  by (auto simp: nearest_idle_def some_idle_def)

lemma nearest_idle_unique: "nearest_idle s f i \<Longrightarrow> nearest_idle s f j \<Longrightarrow> i = j"
  unfolding nearest_idle_def
  by (metis linorder_neqE_nat not_less order.strict_trans2 leD)

lemma find_none: "wf_lifts s \<Longrightarrow> \<not> some_idle s \<Longrightarrow> findNearestIdleLift s f = Inr (- 1)"
  using find_cases[of s f] nearest_idle_some by blast

lemma find_some: "wf_lifts s \<Longrightarrow> nearest_idle s f i \<Longrightarrow> findNearestIdleLift s f = Inr (int i)"
  using find_cases[of s f] nearest_idle_some nearest_idle_unique by blast

lemma some_idle_nearest: "wf_lifts s \<Longrightarrow> some_idle s \<Longrightarrow> \<exists>i. nearest_idle s f i"
  using find_cases[of s f] by blast


text \<open>
  Claim C2. In a state whose \<^verbatim>\<open>liftStates\<close> has \<^verbatim>\<open>lifts\<close> entries,
  \<^verbatim>\<open>findNearestIdleLift\<close> returns without throwing; it returns \<open>-1\<close> exactly when no
  lift is idle; and when some lift is idle it returns the index of an idle lift whose
  distance to the floor is minimal among the idle lifts, the first such in index order.
\<close>

theorem findNearestIdleLift_nearest:
  assumes "wf_lifts s"
  shows "\<exists>r. findNearestIdleLift s f = Inr r \<and> ((r = - 1) = (\<not> some_idle s)) \<and>
             (some_idle s \<longrightarrow> 0 \<le> r \<and> nearest_idle s f (nat r))"
  using find_cases[OF assms, of f] nearest_idle_some by fastforce

lemma lifts_at_3_7_find: "findNearestIdleLift lifts_at_3_7 5 = Inr 0"
  by (simp add: findNearestIdleLift_def lifts_at_3_7_def findLoop.simps)

theorem findNearestIdleLift_nearest_witness:
  "wf_lifts lifts_at_3_7 \<and> some_idle lifts_at_3_7 \<and>
   findNearestIdleLift lifts_at_3_7 5 = Inr 0 \<and> nearest_idle lifts_at_3_7 5 0 \<and>
   distance_to lifts_at_3_7 5 0 = 2 \<and> distance_to lifts_at_3_7 5 1 = 2"
proof -
  have w: "wf_lifts lifts_at_3_7" by (simp add: wf_lifts_def lifts_at_3_7_def)
  have i: "some_idle lifts_at_3_7"
    unfolding some_idle_def by (rule exI[of _ 0]) (simp add: idle_at_def lifts_at_3_7_def)
  from findNearestIdleLift_nearest[OF w, of 5] i lifts_at_3_7_find
  have "nearest_idle lifts_at_3_7 5 0" by auto
  with w i lifts_at_3_7_find show ?thesis
    by (simp add: distance_to_def lifts_at_3_7_def)
qed


section \<open>The operations case by case, and what holds in every reachable state\<close>


lemma moveLift_valid:
  "i < length (liftStates s) \<Longrightarrow>
   moveLift s (int i) f =
     s\<lparr>liftStates := (liftStates s)[i := (liftStates s ! i)\<lparr>status := Moving\<rparr>],
       trips := trips s @ [\<lparr>liftIndex = i, targetFloor = f, phase = AwaitMove,
                             timer = \<bar>f - currentFloor (liftStates s ! i)\<bar> * 2000\<rparr>]\<rparr>"
  by (simp add: moveLift_def Let_def)

lemma find_cong:
  assumes "wf_lifts s" "lifts s' = lifts s" "liftStates s' = liftStates s"
  shows "findNearestIdleLift s' f = findNearestIdleLift s f"
proof -
  have w': "wf_lifts s'" using assms by (simp add: wf_lifts_def)
  show ?thesis
  proof (cases "some_idle s")
    case True
    then obtain i where i: "nearest_idle s f i" using some_idle_nearest[OF assms(1)] by blast
    then have "nearest_idle s' f i" using assms(3) by (simp add: nearest_idle_def idle_at_def distance_to_def)
    from find_some[OF w' this] find_some[OF assms(1) i] show ?thesis by simp
  next
    case False
    then have "\<not> some_idle s'" using assms(3) by (simp add: some_idle_def idle_at_def)
    from find_none[OF w' this] find_none[OF assms(1) False] show ?thesis by simp
  qed
qed

subsection \<open>\<^verbatim>\<open>callLift\<close>, case by case\<close>

lemma callLift_duplicate:
  "0 \<le> f \<Longrightarrow> nat f < length (floorCalls s) \<Longrightarrow> getFlag (floorCalls s ! nat f) d \<Longrightarrow>
   callLift s f d = Inr s"
  by (simp add: callLift_def)

lemma callLift_enqueue:
  assumes "wf_lifts s" "0 \<le> f" "nat f < length (floorCalls s)"
    "\<not> getFlag (floorCalls s ! nat f) d" "\<not> some_idle s"
  shows "callLift s f d =
     Inr (s\<lparr>floorCalls := (floorCalls s)[nat f := setFlag (floorCalls s ! nat f) d True],
            pendingCalls := pendingCalls s @ [\<lparr>floor = f, direction = d\<rparr>]\<rparr>)"
proof -
  let ?s1 = "s\<lparr>floorCalls := (floorCalls s)[nat f := setFlag (floorCalls s ! nat f) d True]\<rparr>"
  have "findNearestIdleLift ?s1 f = findNearestIdleLift s f"
    by (rule find_cong[OF assms(1)]) simp_all
  also have "\<dots> = Inr (- 1)" by (rule find_none[OF assms(1) assms(5)])
  finally show ?thesis using assms(2-4) by (simp add: callLift_def Let_def)
qed

lemma callLift_dispatch:
  assumes "wf_lifts s" "0 \<le> f" "nat f < length (floorCalls s)"
    "\<not> getFlag (floorCalls s ! nat f) d" "nearest_idle s f i"
  shows "callLift s f d =
     Inr (moveLift (s\<lparr>floorCalls := (floorCalls s)[nat f := setFlag (floorCalls s ! nat f) d True]\<rparr>)
            (int i) f)"
proof -
  let ?s1 = "s\<lparr>floorCalls := (floorCalls s)[nat f := setFlag (floorCalls s ! nat f) d True]\<rparr>"
  have "findNearestIdleLift ?s1 f = findNearestIdleLift s f"
    by (rule find_cong[OF assms(1)]) simp_all
  also have "\<dots> = Inr (int i)" by (rule find_some[OF assms(1) assms(5)])
  finally show ?thesis using assms(2-4) by (simp add: callLift_def Let_def)
qed

subsection \<open>\<^verbatim>\<open>checkPendingCalls\<close>, case by case\<close>

lemma checkPendingCalls_empty: "pendingCalls s = [] \<Longrightarrow> checkPendingCalls s = Inr s"
  by (simp add: checkPendingCalls_def)

lemma checkPendingCalls_requeue:
  assumes "wf_lifts s" "pendingCalls s = c # rest" "\<not> some_idle s"
  shows "checkPendingCalls s = Inr s"
proof -
  have "findNearestIdleLift (s\<lparr>pendingCalls := rest\<rparr>) (floor c) = findNearestIdleLift s (floor c)"
    by (rule find_cong[OF assms(1)]) simp_all
  also have "\<dots> = Inr (- 1)" by (rule find_none[OF assms(1) assms(3)])
  finally show ?thesis using assms(2) by (simp add: checkPendingCalls_def Let_def)
qed

lemma checkPendingCalls_dispatch:
  assumes "wf_lifts s" "pendingCalls s = c # rest" "nearest_idle s (floor c) i"
  shows "checkPendingCalls s = Inr (moveLift (s\<lparr>pendingCalls := rest\<rparr>) (int i) (floor c))"
proof -
  have "findNearestIdleLift (s\<lparr>pendingCalls := rest\<rparr>) (floor c) = findNearestIdleLift s (floor c)"
    by (rule find_cong[OF assms(1)]) simp_all
  also have "\<dots> = Inr (int i)" by (rule find_some[OF assms(1) assms(3)])
  finally show ?thesis using assms(2) by (simp add: checkPendingCalls_def Let_def)
qed

subsection \<open>\<^verbatim>\<open>timerFires\<close>, phase by phase\<close>

lemma timerFires_AwaitMove:
  "k < length (trips s) \<Longrightarrow> liftIndex (trips s ! k) < length (liftStates s) \<Longrightarrow>
   phase (trips s ! k) = AwaitMove \<Longrightarrow>
   timerFires s k =
     Inr (s\<lparr>liftStates := (liftStates s)[liftIndex (trips s ! k) :=
                (liftStates s ! liftIndex (trips s ! k))\<lparr>currentFloor := targetFloor (trips s ! k)\<rparr>],
            trips := (trips s)[k := (trips s ! k)\<lparr>phase := AwaitOpen, timer := 2500\<rparr>]\<rparr>)"
  by (simp add: timerFires_def Let_def)

lemma timerFires_AwaitOpen:
  "k < length (trips s) \<Longrightarrow> liftIndex (trips s ! k) < length (liftStates s) \<Longrightarrow>
   phase (trips s ! k) = AwaitOpen \<Longrightarrow>
   timerFires s k = Inr (s\<lparr>trips := (trips s)[k := (trips s ! k)\<lparr>phase := AwaitClose, timer := 2500\<rparr>]\<rparr>)"
  by (simp add: timerFires_def Let_def)

lemma timerFires_AwaitClose:
  "k < length (trips s) \<Longrightarrow> liftIndex (trips s ! k) < length (liftStates s) \<Longrightarrow>
   phase (trips s ! k) = AwaitClose \<Longrightarrow>
   0 \<le> targetFloor (trips s ! k) \<Longrightarrow> nat (targetFloor (trips s ! k)) < length (floorCalls s) \<Longrightarrow>
   timerFires s k = checkPendingCalls (arrived s k)"
  by (simp add: timerFires_def arrived_def Let_def)





lemma remove_nth_image:
  assumes "k < length xs" "distinct (map g xs)"
  shows "g ` set (take k xs @ drop (Suc k) xs) = g ` set xs - {g (xs ! k)}"
proof -
  have xs: "xs = take k xs @ xs ! k # drop (Suc k) xs"
    using assms(1) by (rule id_take_nth_drop)
  have "distinct (map g (take k xs @ xs ! k # drop (Suc k) xs))"
    using assms(2) xs by simp
  then have n: "g (xs ! k) \<notin> g ` set (take k xs)" "g (xs ! k) \<notin> g ` set (drop (Suc k) xs)"
    by auto
  have "set xs = set (take k xs) \<union> {xs ! k} \<union> set (drop (Suc k) xs)"
    by (subst xs) auto
  then have "g ` set xs = g ` set (take k xs) \<union> {g (xs ! k)} \<union> g ` set (drop (Suc k) xs)"
    by (simp add: image_Un)
  with n show ?thesis by (simp add: image_Un)
qed

lemma remove_nth_distinct_list:
  assumes "distinct ys"
  shows "distinct (take k ys @ drop (Suc k) ys)"
proof -
  have "distinct (take k ys @ drop k ys)" using assms by simp
  then have "distinct (take k ys)" "set (take k ys) \<inter> set (drop k ys) = {}"
    by (simp_all only: distinct_append)
  moreover have "set (drop (Suc k) ys) \<subseteq> set (drop k ys)"
    by (rule set_drop_subset_set_drop) simp
  moreover have "distinct (drop (Suc k) ys)" using assms by (rule distinct_drop)
  ultimately show ?thesis by (simp only: distinct_append) blast
qed

lemma remove_nth_distinct:
  assumes "distinct (map g xs)"
  shows "distinct (map g (take k xs @ drop (Suc k) xs))"
  using remove_nth_distinct_list[OF assms, of k] by (simp add: take_map drop_map)

lemma core_inv_moveLift:
  assumes "core_inv s" "i < length (liftStates s)" "idle_at s i" "1 \<le> f" "f \<le> floors s"
  shows "core_inv (moveLift s (int i) f)"
proof -
  have notin: "i \<notin> liftIndex ` set (trips s)"
    using assms(1-3) by (auto simp: core_inv_def idle_at_def)
  show ?thesis
    using assms notin
    by (auto simp: moveLift_valid core_inv_def wf_lifts_def nth_list_update)
qed

lemma core_inv_flag:
  "core_inv s \<Longrightarrow> core_inv (s\<lparr>floorCalls := (floorCalls s)[n := x]\<rparr>)"
  by (simp add: core_inv_def wf_lifts_def)

lemma core_inv_enqueue:
  "core_inv s \<Longrightarrow> 1 \<le> f \<Longrightarrow> f \<le> floors s \<Longrightarrow>
   core_inv (s\<lparr>pendingCalls := pendingCalls s @ [\<lparr>floor = f, direction = d\<rparr>]\<rparr>)"
  by (auto simp: core_inv_def wf_lifts_def)

lemma core_inv_dequeue:
  "core_inv s \<Longrightarrow> pendingCalls s = c # rest \<Longrightarrow> core_inv (s\<lparr>pendingCalls := rest\<rparr>)"
  by (auto simp: core_inv_def wf_lifts_def)

lemma core_inv_arrived:
  assumes "core_inv s" "k < length (trips s)"
  shows "core_inv (arrived s k)"
proof -
  let ?t = "trips s ! k"
  let ?i = "liftIndex ?t"
  have d: "distinct (map liftIndex (trips s))" using assms(1) by (simp add: core_inv_def)
  have img: "liftIndex ` set (take k (trips s) @ drop (Suc k) (trips s)) = liftIndex ` set (trips s) - {?i}"
    by (rule remove_nth_image[OF assms(2) d])
  have d': "distinct (map liftIndex (take k (trips s) @ drop (Suc k) (trips s)))"
    by (rule remove_nth_distinct[OF d])
  have sub: "set (take k (trips s) @ drop (Suc k) (trips s)) \<subseteq> set (trips s)"
    by (auto dest: in_set_takeD in_set_dropD)
  have i: "?i < length (liftStates s)" using assms by (simp add: core_inv_def)
  have st: "\<forall>j < length (liftStates s).
      (status ((liftStates s)[?i := (liftStates s ! ?i)\<lparr>status := Idle\<rparr>] ! j) = Moving) =
      (j \<in> liftIndex ` set (trips s) - {?i})"
    using assms(1) i by (auto simp: core_inv_def nth_list_update)
  show ?thesis
    unfolding core_inv_def arrived_def Let_def
    using assms(1) sub d' st
    by (simp add: img core_inv_def wf_lifts_def subset_iff del: set_append)
qed




lemma inv_init: "LiftSimulation_new nf nl = Inr s \<Longrightarrow> state_inv s"
  by (auto simp: LiftSimulation_new_def state_inv_def core_inv_def wf_lifts_def split: if_splits)

lemma button_in_range:
  "core_inv s \<Longrightarrow> button_exists s f d \<Longrightarrow> 0 \<le> f \<and> nat f < length (floorCalls s) \<and> 1 \<le> f \<and> f \<le> floors s"
  by (auto simp: core_inv_def button_exists_def)

lemma idle_after_moveLift:
  "i < length (liftStates s) \<Longrightarrow> j < length (liftStates s) \<Longrightarrow>
   idle_at (moveLift s (int i) f) j = (j \<noteq> i \<and> idle_at s j)"
  by (auto simp: moveLift_valid idle_at_def nth_list_update)

lemma length_after_moveLift [simp]: "length (liftStates (moveLift s li f)) = length (liftStates s)"
  by (simp add: moveLift_def Let_def)

lemma pending_after_moveLift [simp]: "pendingCalls (moveLift s li f) = pendingCalls s"
  by (simp add: moveLift_def Let_def)

lemma floorCalls_after_moveLift [simp]: "floorCalls (moveLift s li f) = floorCalls s"
  by (simp add: moveLift_def Let_def)

lemma inv_callLift:
  assumes "state_inv s" "button_exists s f d"
  shows "\<exists>s'. callLift s f d = Inr s' \<and> state_inv s'"
proof -
  have core: "core_inv s" and w: "wf_lifts s" using assms(1) by (simp_all add: state_inv_def core_inv_def)
  from button_in_range[OF core assms(2)]
  have r: "0 \<le> f" "nat f < length (floorCalls s)" "1 \<le> f" "f \<le> floors s" by simp_all
  let ?s1 = "s\<lparr>floorCalls := (floorCalls s)[nat f := setFlag (floorCalls s ! nat f) d True]\<rparr>"
  have core1: "core_inv ?s1" by (rule core_inv_flag[OF core])
  show ?thesis
  proof (cases "getFlag (floorCalls s ! nat f) d")
    case True
    then show ?thesis using callLift_duplicate[OF r(1,2)] assms(1) by simp
  next
    case nf: False
    show ?thesis
    proof (cases "some_idle s")
      case False
      have "state_inv (?s1\<lparr>pendingCalls := pendingCalls ?s1 @ [\<lparr>floor = f, direction = d\<rparr>]\<rparr>)"
        using core_inv_enqueue[OF core1 r(3), of d] r(4) False
        by (simp add: state_inv_def some_idle_def idle_at_def)
      then show ?thesis using callLift_enqueue[OF w r(1,2) nf False] by simp
    next
      case True
      then obtain i where i: "nearest_idle s f i" using some_idle_nearest[OF w] by blast
      then have il: "i < length (liftStates s)" and idle: "idle_at s i"
        by (simp_all add: nearest_idle_def)
      have q: "pendingCalls s = []" using assms(1) True by (auto simp: state_inv_def)
      have "core_inv (moveLift ?s1 (int i) f)"
        using core_inv_moveLift[OF core1, of i f] il idle r by (simp add: idle_at_def)
      then have "state_inv (moveLift ?s1 (int i) f)" using q by (simp add: state_inv_def)
      then show ?thesis using callLift_dispatch[OF w r(1,2) nf i] by simp
    qed
  qed
qed

lemma trips_update_same_index:
  "k < length ts \<Longrightarrow> liftIndex t' = liftIndex (ts ! k) \<Longrightarrow> map liftIndex (ts[k := t']) = map liftIndex ts"
  by (simp add: map_update list_update_same_conv)

lemma inv_timer_phase:
  assumes "state_inv s" "k < length (trips s)" "liftStates s' = (liftStates s)[liftIndex (trips s ! k) := ls']"
    "status ls' = status (liftStates s ! liftIndex (trips s ! k))"
    "trips s' = (trips s)[k := t']" "liftIndex t' = liftIndex (trips s ! k)"
    "targetFloor t' = targetFloor (trips s ! k)"
    "floors s' = floors s" "lifts s' = lifts s" "floorCalls s' = floorCalls s"
    "pendingCalls s' = pendingCalls s"
  shows "state_inv s'"
proof -
  have core: "core_inv s" using assms(1) by (simp add: state_inv_def)
  have m: "map liftIndex (trips s') = map liftIndex (trips s)"
    using assms(2,5,6) by (simp add: trips_update_same_index)
  then have img: "liftIndex ` set (trips s') = liftIndex ` set (trips s)"
    by (metis set_map)
  have il: "liftIndex (trips s ! k) < length (liftStates s)"
    using core assms(2) by (simp add: core_inv_def)
  have st: "\<forall>j < length (liftStates s). status (liftStates s' ! j) = status (liftStates s ! j)"
    using assms(3,4) il by (auto simp: nth_list_update)
  have tr: "\<forall>t \<in> set (trips s'). liftIndex t < length (liftStates s) \<and> 1 \<le> targetFloor t \<and> targetFloor t \<le> floors s"
  proof
    fix t assume "t \<in> set (trips s')"
    then have "t = t' \<or> t \<in> set (trips s)"
      using assms(5) set_update_subset_insert[of "trips s" k t'] by auto
    moreover have "trips s ! k \<in> set (trips s)" using assms(2) by simp
    ultimately show "liftIndex t < length (liftStates s) \<and> 1 \<le> targetFloor t \<and> targetFloor t \<le> floors s"
      using core assms(6,7) by (auto simp: core_inv_def)
  qed
  have "core_inv s'"
    unfolding core_inv_def using core tr st m img assms(3,8-11)
    by (simp add: core_inv_def wf_lifts_def)
  moreover have len: "length (liftStates s') = length (liftStates s)"
    using assms(3) by simp
  have "some_idle s' = some_idle s"
    using st len by (auto simp: some_idle_def idle_at_def)
  ultimately show ?thesis using assms(1,11) by (simp add: state_inv_def)
qed

lemma arrived_fields [simp]:
  "pendingCalls (arrived s k) = pendingCalls s"
  "floors (arrived s k) = floors s"
  "lifts (arrived s k) = lifts s"
  "length (liftStates (arrived s k)) = length (liftStates s)"
  "length (floorCalls (arrived s k)) = length (floorCalls s)"
  by (simp_all add: arrived_def Let_def)

lemma idle_at_arrived:
  "liftIndex (trips s ! k) < length (liftStates s) \<Longrightarrow> j < length (liftStates s) \<Longrightarrow>
   idle_at (arrived s k) j = (j = liftIndex (trips s ! k) \<or> idle_at s j)"
  by (auto simp: arrived_def Let_def idle_at_def nth_list_update)

lemma inv_checkPendingCalls_arrived:
  assumes "state_inv s" "k < length (trips s)"
  shows "\<exists>s'. checkPendingCalls (arrived s k) = Inr s' \<and> state_inv s'"
proof -
  let ?a = "arrived s k"
  let ?i = "liftIndex (trips s ! k)"
  have core: "core_inv s" using assms(1) by (simp add: state_inv_def)
  have corea: "core_inv ?a" by (rule core_inv_arrived[OF core assms(2)])
  then have wa: "wf_lifts ?a" by (simp add: core_inv_def)
  have i: "?i < length (liftStates s)" using core assms(2) by (simp add: core_inv_def)
  show ?thesis
  proof (cases "pendingCalls s")
    case Nil
    then have "state_inv ?a" using corea by (simp add: state_inv_def)
    then show ?thesis using Nil by (simp add: checkPendingCalls_empty)
  next
    case (Cons c rest)
    then have busy: "\<not> some_idle s" using assms(1) by (simp add: state_inv_def)
    have "some_idle ?a" unfolding some_idle_def using i idle_at_arrived[OF i i, of ] by auto
    then obtain j where j: "nearest_idle ?a (floor c) j" using some_idle_nearest[OF wa] by blast
    then have jl: "j < length (liftStates s)" and ji: "idle_at ?a j"
      by (simp_all add: nearest_idle_def)
    have only: "\<And>j. j < length (liftStates s) \<Longrightarrow> idle_at ?a j \<Longrightarrow> j = ?i"
      using busy i by (auto simp: idle_at_arrived some_idle_def)
    have c: "1 \<le> floor c" "floor c \<le> floors s" using core Cons by (simp_all add: core_inv_def)
    let ?d = "?a\<lparr>pendingCalls := rest\<rparr>"
    have cored: "core_inv ?d" by (rule core_inv_dequeue[OF corea]) (simp add: Cons)
    have "core_inv (moveLift ?d (int j) (floor c))"
      using core_inv_moveLift[OF cored, of j "floor c"] jl ji c by (simp add: idle_at_def)
    moreover have "\<not> some_idle (moveLift ?d (int j) (floor c))"
    proof
      assume "some_idle (moveLift ?d (int j) (floor c))"
      then obtain l where l: "l < length (liftStates s)" "idle_at (moveLift ?d (int j) (floor c)) l"
        by (auto simp: some_idle_def)
      then have "l \<noteq> j \<and> idle_at ?d l" using idle_after_moveLift[of j ?d l "floor c"] jl by simp
      then have "l \<noteq> j" "idle_at ?a l" by (simp_all add: idle_at_def)
      with only[OF l(1)] only[OF jl ji] show False by simp
    qed
    ultimately have "state_inv (moveLift ?d (int j) (floor c))" by (simp add: state_inv_def)
    then show ?thesis using checkPendingCalls_dispatch[OF wa _ j, of rest] Cons by simp
  qed
qed

lemma inv_timerFires:
  assumes "state_inv s" "k < length (trips s)"
  shows "\<exists>s'. timerFires s k = Inr s' \<and> state_inv s'"
proof -
  let ?t = "trips s ! k"
  have core: "core_inv s" using assms(1) by (simp add: state_inv_def)
  have tk: "?t \<in> set (trips s)" using assms(2) by simp
  then have i: "liftIndex ?t < length (liftStates s)"
    and g: "0 \<le> targetFloor ?t" "nat (targetFloor ?t) < length (floorCalls s)"
    using core by (auto simp: core_inv_def)
  show ?thesis
  proof (cases "phase ?t")
    case AwaitMove
    have "state_inv (s\<lparr>liftStates := (liftStates s)[liftIndex ?t :=
                (liftStates s ! liftIndex ?t)\<lparr>currentFloor := targetFloor ?t\<rparr>],
            trips := (trips s)[k := ?t\<lparr>phase := AwaitOpen, timer := 2500\<rparr>]\<rparr>)"
      by (rule inv_timer_phase[OF assms,
            where ls' = "(liftStates s ! liftIndex ?t)\<lparr>currentFloor := targetFloor ?t\<rparr>"
              and t' = "?t\<lparr>phase := AwaitOpen, timer := 2500\<rparr>"]) simp_all
    then show ?thesis
      unfolding timerFires_AwaitMove[OF assms(2) i AwaitMove] by simp
  next
    case AwaitOpen
    have "state_inv (s\<lparr>trips := (trips s)[k := ?t\<lparr>phase := AwaitClose, timer := 2500\<rparr>]\<rparr>)"
      by (rule inv_timer_phase[OF assms, where ls' = "liftStates s ! liftIndex ?t"
              and t' = "?t\<lparr>phase := AwaitClose, timer := 2500\<rparr>"]) simp_all
    then show ?thesis
      unfolding timerFires_AwaitOpen[OF assms(2) i AwaitOpen] by simp
  next
    case AwaitClose
    show ?thesis
      unfolding timerFires_AwaitClose[OF assms(2) i AwaitClose g]
      by (rule inv_checkPendingCalls_arrived[OF assms])
  qed
qed

lemma reachable_inv: "reachable s \<Longrightarrow> state_inv s"
proof (induction rule: reachable.induct)
  case (init nf nl s)
  then show ?case by (rule inv_init)
next
  case (next_event s e)
  show ?case
  proof (cases e)
    case (Click f d)
    with next_event inv_callLift[of s f d] show ?thesis by auto
  next
    case (Timer k)
    with next_event inv_timerFires[of s k] show ?thesis by auto
  qed
qed

lemma valid_run_reachable: "reachable s \<Longrightarrow> valid_run s es \<Longrightarrow> reachable (run s es)"
  by (induction es arbitrary: s) (auto intro: reachable.next_event)




lemma arrived_nearest:
  assumes "state_inv s" "k < length (trips s)" "pendingCalls s \<noteq> []"
  shows "nearest_idle (arrived s k) f (liftIndex (trips s ! k))"
proof -
  let ?i = "liftIndex (trips s ! k)"
  have core: "core_inv s" and busy: "\<not> some_idle s" using assms by (simp_all add: state_inv_def)
  have i: "?i < length (liftStates s)" using core assms(2) by (simp add: core_inv_def)
  have "\<And>j. j < length (liftStates s) \<Longrightarrow> idle_at (arrived s k) j = (j = ?i)"
    using busy i by (auto simp: idle_at_arrived some_idle_def)
  then show ?thesis using i by (auto simp: nearest_idle_def)
qed

lemma timer_close_outcome:
  assumes "state_inv s" "k < length (trips s)" "phase (trips s ! k) = AwaitClose"
  shows "(pendingCalls s = [] \<longrightarrow> timerFires s k = Inr (arrived s k)) \<and>
         (\<forall>c rest. pendingCalls s = c # rest \<longrightarrow>
            timerFires s k =
              Inr (moveLift ((arrived s k)\<lparr>pendingCalls := rest\<rparr>)
                     (int (liftIndex (trips s ! k))) (floor c)))"
proof -
  let ?t = "trips s ! k"
  have core: "core_inv s" using assms(1) by (simp add: state_inv_def)
  have tk: "?t \<in> set (trips s)" using assms(2) by simp
  then have i: "liftIndex ?t < length (liftStates s)"
    and g: "0 \<le> targetFloor ?t" "nat (targetFloor ?t) < length (floorCalls s)"
    using core by (auto simp: core_inv_def)
  have tf: "timerFires s k = checkPendingCalls (arrived s k)"
    by (rule timerFires_AwaitClose[OF assms(2) i assms(3) g])
  have wa: "wf_lifts (arrived s k)"
    using core_inv_arrived[OF core assms(2)] by (simp add: core_inv_def)
  show ?thesis
  proof (intro conjI allI impI)
    assume "pendingCalls s = []"
    then show "timerFires s k = Inr (arrived s k)" by (simp add: tf checkPendingCalls_empty)
  next
    fix c rest assume q: "pendingCalls s = c # rest"
    then have "nearest_idle (arrived s k) (floor c) (liftIndex ?t)"
      using arrived_nearest[OF assms(1,2)] by simp
    from checkPendingCalls_dispatch[OF wa _ this, of rest] q
    show "timerFires s k =
              Inr (moveLift ((arrived s k)\<lparr>pendingCalls := rest\<rparr>) (int (liftIndex ?t)) (floor c))"
      by (simp add: tf)
  qed
qed

lemma trips_after_moveLift:
  "i < length (liftStates s) \<Longrightarrow>
   trips (moveLift s (int i) f) =
     trips s @ [\<lparr>liftIndex = i, targetFloor = f, phase = AwaitMove,
                  timer = \<bar>f - currentFloor (liftStates s ! i)\<bar> * 2000\<rparr>]"
  by (simp add: moveLift_valid)

text \<open>What one event does to the queue.\<close>

lemma step_queue:
  assumes "state_inv s" "valid_event s e"
  shows "pendingCalls (step s e) = pendingCalls s \<or>
         (\<exists>f d. e = Click f d \<and> \<not> flagAt s f d \<and> \<not> some_idle s \<and>
                 pendingCalls (step s e) = pendingCalls s @ [\<lparr>floor = f, direction = d\<rparr>]) \<or>
         (\<exists>k c. e = Timer k \<and> phase (trips s ! k) = AwaitClose \<and>
                 pendingCalls s = c # pendingCalls (step s e) \<and>
                 trips (step s e) = trips (arrived s k) @
                   [\<lparr>liftIndex = liftIndex (trips s ! k), targetFloor = floor c, phase = AwaitMove,
                     timer = \<bar>floor c - currentFloor (liftStates s ! liftIndex (trips s ! k))\<bar> * 2000\<rparr>])"
proof (cases e)
  case (Click f d)
  have core: "core_inv s" and w: "wf_lifts s" using assms(1) by (simp_all add: state_inv_def core_inv_def)
  from Click assms(2) have b: "button_exists s f d" by simp
  from button_in_range[OF core b]
  have r: "0 \<le> f" "nat f < length (floorCalls s)" by simp_all
  show ?thesis
  proof (cases "getFlag (floorCalls s ! nat f) d")
    case True
    then show ?thesis using callLift_duplicate[OF r] Click by simp
  next
    case nf: False
    show ?thesis
    proof (cases "some_idle s")
      case False
      then show ?thesis using callLift_enqueue[OF w r nf False] Click nf
        by (simp add: flagAt_def)
    next
      case True
      then obtain i where i: "nearest_idle s f i" using some_idle_nearest[OF w] by blast
      show ?thesis using callLift_dispatch[OF w r nf i] Click by simp
    qed
  qed
next
  case (Timer k)
  with assms(2) have k: "k < length (trips s)" by simp
  let ?t = "trips s ! k"
  have core: "core_inv s" using assms(1) by (simp add: state_inv_def)
  have i: "liftIndex ?t < length (liftStates s)" using core k by (simp add: core_inv_def)
  show ?thesis
  proof (cases "phase ?t")
    case AwaitMove
    then show ?thesis using timerFires_AwaitMove[OF k i] Timer by simp
  next
    case AwaitOpen
    then show ?thesis using timerFires_AwaitOpen[OF k i] Timer by simp
  next
    case AwaitClose
    note out = timer_close_outcome[OF assms(1) k AwaitClose]
    show ?thesis
    proof (cases "pendingCalls s")
      case Nil
      then show ?thesis using out Timer by simp
    next
      case (Cons c rest)
      then have tf: "timerFires s k =
          Inr (moveLift ((arrived s k)\<lparr>pendingCalls := rest\<rparr>) (int (liftIndex ?t)) (floor c))"
        using out by simp
      have cf: "currentFloor (liftStates (arrived s k) ! liftIndex ?t) =
                currentFloor (liftStates s ! liftIndex ?t)"
        using i by (simp add: arrived_def Let_def)
      have "trips (step s e) = trips (arrived s k) @
                   [\<lparr>liftIndex = liftIndex ?t, targetFloor = floor c, phase = AwaitMove,
                     timer = \<bar>floor c - currentFloor (liftStates s ! liftIndex ?t)\<bar> * 2000\<rparr>]"
        using Timer tf i cf by (simp add: trips_after_moveLift)
      moreover have "pendingCalls s = c # pendingCalls (step s e)"
        using Timer tf Cons by simp
      ultimately show ?thesis using Timer AwaitClose by blast
    qed
  qed
qed


section \<open>Evaluating runs\<close>

lemmas eval_defs = button_exists_def callLift_def findNearestIdleLift_def findLoop.simps
      moveLift_def timerFires_def checkPendingCalls_def Let_def

lemma run_fifo:
  "state_inv s \<Longrightarrow> valid_run s es \<Longrightarrow>
   pendingCalls s @ arrivals s es = served s es @ pendingCalls (run s es)"
proof (induction es arbitrary: s)
  case Nil
  then show ?case by simp
next
  case (Cons e es)
  from Cons.prems have v: "valid_event s e" and vr: "valid_run (step s e) es" by simp_all
  have "reach": "state_inv (step s e)"
  proof (cases e)
    case (Click f d)
    with v Cons.prems(1) inv_callLift[of s f d] show ?thesis by auto
  next
    case (Timer k)
    with v Cons.prems(1) inv_timerFires[of s k] show ?thesis by auto
  qed
  note IH = Cons.IH[OF "reach" vr]
  from step_queue[OF Cons.prems(1) v]
  consider (same) "pendingCalls (step s e) = pendingCalls s"
    | (app) c where "pendingCalls (step s e) = pendingCalls s @ [c]"
    | (rem) c where "pendingCalls s = c # pendingCalls (step s e)"
    by blast
  then show ?case
  proof cases
    case same
    then show ?thesis using IH by simp
  next
    case app
    then show ?thesis using IH by simp
  next
    case rem
    then have "length (pendingCalls (step s e)) < length (pendingCalls s)"
      "hd (pendingCalls s) = c"
      by (simp_all add: arg_cong[OF rem, of length] )
    then show ?thesis using IH rem by simp
  qed
qed

section \<open>The pending queue\<close>

text \<open>
  Claim C3. The queue is first in, first out. (1) A call that sets its flag while no lift
  is idle is appended at the tail. (2) \<^verbatim>\<open>checkPendingCalls\<close> removes the front call
  and, when some lift is idle, sends the nearest idle lift to that call's floor. (3) When
  no lift is idle it puts the call back at the front, so the queue is as before.
  (4) In a reachable state one event leaves the queue alone, or is a click that appends
  one call, or is a last door timer that removes the front call and starts a trip to its
  floor. (5) Hence along any run the calls served so far, followed by the queue, are the
  calls that were queued at the start followed by the calls that arrived, in order.
\<close>

theorem pendingCalls_fifo:
  "(wf_lifts s \<and> 0 \<le> f \<and> nat f < length (floorCalls s) \<and> \<not> flagAt s f d \<and> \<not> some_idle s \<longrightarrow>
      (\<exists>s'. callLift s f d = Inr s' \<and>
            pendingCalls s' = pendingCalls s @ [\<lparr>floor = f, direction = d\<rparr>])) \<and>
   (wf_lifts s \<and> pendingCalls s = c # rest \<and> some_idle s \<longrightarrow>
      (\<exists>i. nearest_idle s (floor c) i \<and>
           checkPendingCalls s = Inr (moveLift (s\<lparr>pendingCalls := rest\<rparr>) (int i) (floor c)) \<and>
           pendingCalls (moveLift (s\<lparr>pendingCalls := rest\<rparr>) (int i) (floor c)) = rest)) \<and>
   (wf_lifts s \<and> pendingCalls s = c # rest \<and> \<not> some_idle s \<longrightarrow> checkPendingCalls s = Inr s) \<and>
   (reachable s \<and> valid_event s e \<longrightarrow>
      pendingCalls (step s e) = pendingCalls s \<or>
      (\<exists>f d. e = Click f d \<and> pendingCalls (step s e) = pendingCalls s @ [\<lparr>floor = f, direction = d\<rparr>]) \<or>
      (\<exists>k c. e = Timer k \<and> phase (trips s ! k) = AwaitClose \<and>
             pendingCalls s = c # pendingCalls (step s e) \<and>
             targetFloor (last (trips (step s e))) = floor c \<and>
             phase (last (trips (step s e))) = AwaitMove)) \<and>
   (reachable s \<and> valid_run s es \<longrightarrow>
      pendingCalls s @ arrivals s es = served s es @ pendingCalls (run s es))"
proof (intro conjI impI)
  assume a: "wf_lifts s \<and> 0 \<le> f \<and> nat f < length (floorCalls s) \<and> \<not> flagAt s f d \<and> \<not> some_idle s"
  then have "\<not> getFlag (floorCalls s ! nat f) d" by (simp add: flagAt_def)
  with a callLift_enqueue[of s f d]
  show "\<exists>s'. callLift s f d = Inr s' \<and> pendingCalls s' = pendingCalls s @ [\<lparr>floor = f, direction = d\<rparr>]"
    by simp
next
  assume a: "wf_lifts s \<and> pendingCalls s = c # rest \<and> some_idle s"
  then obtain i where "nearest_idle s (floor c) i" using some_idle_nearest by blast
  with a checkPendingCalls_dispatch[of s c rest i]
  show "\<exists>i. nearest_idle s (floor c) i \<and>
           checkPendingCalls s = Inr (moveLift (s\<lparr>pendingCalls := rest\<rparr>) (int i) (floor c)) \<and>
           pendingCalls (moveLift (s\<lparr>pendingCalls := rest\<rparr>) (int i) (floor c)) = rest"
    by auto
next
  assume "wf_lifts s \<and> pendingCalls s = c # rest \<and> \<not> some_idle s"
  then show "checkPendingCalls s = Inr s" using checkPendingCalls_requeue by blast
next
  assume a: "reachable s \<and> valid_event s e"
  then have i: "state_inv s" by (simp add: reachable_inv)
  from step_queue[OF i] a
  show "pendingCalls (step s e) = pendingCalls s \<or>
      (\<exists>f d. e = Click f d \<and> pendingCalls (step s e) = pendingCalls s @ [\<lparr>floor = f, direction = d\<rparr>]) \<or>
      (\<exists>k c. e = Timer k \<and> phase (trips s ! k) = AwaitClose \<and>
             pendingCalls s = c # pendingCalls (step s e) \<and>
             targetFloor (last (trips (step s e))) = floor c \<and>
             phase (last (trips (step s e))) = AwaitMove)"
    by fastforce
next
  assume "reachable s \<and> valid_run s es"
  then show "pendingCalls s @ arrivals s es = served s es @ pendingCalls (run s es)"
    using run_fifo reachable_inv by blast
qed

lemma sim_9_1_reachable: "reachable sim_9_1"
  by (rule reachable.init[of 9 1]) (simp add: LiftSimulation_new_def sim_9_1_def eval_nat_numeral)


theorem pendingCalls_fifo_witness:
  "reachable sim_9_1 \<and> valid_run sim_9_1 fifo_events \<and>
   arrivals sim_9_1 fifo_events =
     [\<lparr>floor = 4, direction = Up\<rparr>, \<lparr>floor = 2, direction = Up\<rparr>, \<lparr>floor = 7, direction = Up\<rparr>] \<and>
   served sim_9_1 fifo_events =
     [\<lparr>floor = 4, direction = Up\<rparr>, \<lparr>floor = 2, direction = Up\<rparr>, \<lparr>floor = 7, direction = Up\<rparr>]"
proof -
  have v: "valid_run sim_9_1 fifo_events" by (simp add: fifo_events_def sim_9_1_def eval_defs)
  have a: "arrivals sim_9_1 fifo_events =
     [\<lparr>floor = 4, direction = Up\<rparr>, \<lparr>floor = 2, direction = Up\<rparr>, \<lparr>floor = 7, direction = Up\<rparr>]"
    by (simp add: fifo_events_def sim_9_1_def eval_defs)
  have q: "pendingCalls (run sim_9_1 fifo_events) = []" "pendingCalls sim_9_1 = []"
    by (simp_all add: fifo_events_def sim_9_1_def eval_defs)
  have rv: "reachable sim_9_1 \<and> valid_run sim_9_1 fifo_events"
    using sim_9_1_reachable v by (rule conjI)
  have "pendingCalls sim_9_1 @ arrivals sim_9_1 fifo_events =
        served sim_9_1 fifo_events @ pendingCalls (run sim_9_1 fifo_events)"
    by (rule pendingCalls_fifo[of sim_9_1 0 Up "\<lparr>floor = 4, direction = Up\<rparr>" "[]" "Timer 0" fifo_events,
          THEN conjunct2, THEN conjunct2, THEN conjunct2, THEN conjunct2, THEN mp, OF rv])
  then have "served sim_9_1 fifo_events =
     [\<lparr>floor = 4, direction = Up\<rparr>, \<lparr>floor = 2, direction = Up\<rparr>, \<lparr>floor = 7, direction = Up\<rparr>]"
    by (simp only: a q append_Nil append_Nil2)
  with sim_9_1_reachable v a show ?thesis by (intro conjI)
qed



section \<open>No queued call is lost\<close>

lemma sim_3_1_reachable: "reachable sim_3_1"
  by (rule reachable.init[of 3 1]) (simp add: LiftSimulation_new_def sim_3_1_def eval_nat_numeral)



lemma two_queued_eq:
  "two_queued =
     \<lparr>floors = 3, lifts = 1, liftStates = [\<lparr>currentFloor = 2, status = Moving\<rparr>],
      floorCalls = [\<lparr>up = False, down = False\<rparr>, \<lparr>up = False, down = False\<rparr>,
                    \<lparr>up = True, down = True\<rparr>, \<lparr>up = False, down = True\<rparr>],
      pendingCalls = [\<lparr>floor = 3, direction = Down\<rparr>, \<lparr>floor = 2, direction = Down\<rparr>],
      trips = [\<lparr>liftIndex = 0, targetFloor = 2, phase = AwaitClose, timer = 2500\<rparr>]\<rparr>"
  by (simp add: two_queued_def sim_3_1_def eval_defs)

lemma two_queued_reachable: "reachable two_queued"
  unfolding two_queued_def
  by (rule valid_run_reachable[OF sim_3_1_reachable]) (simp add: sim_3_1_def eval_defs)




lemma two_queued_facts:
  "button_exists two_queued 1 Up" "\<not> flagAt two_queued 1 Up" "\<not> some_idle two_queued"
  "valid_event two_queued (Timer 0)" "0 < length (trips two_queued)"
  "phase (trips two_queued ! 0) = AwaitClose"
  "pendingCalls two_queued = \<lparr>floor = 3, direction = Down\<rparr> # [\<lparr>floor = 2, direction = Down\<rparr>]"
  "0 < length (liftStates two_queued)" "liftIndex (trips two_queued ! 0) = 0"
  "currentFloor (liftStates two_queued ! 0) = 2"
  by (simp_all add: two_queued_eq button_exists_def flagAt_def some_idle_def idle_at_def)




section \<open>When a lift becomes idle\<close>

lemma arrived_flags:
  assumes "0 \<le> g" "nat g < length (floorCalls s)" "g = targetFloor (trips s ! k)"
  shows "\<not> flagAt (arrived s k) g Up" "\<not> flagAt (arrived s k) g Down"
  using assms by (simp_all add: flagAt_def arrived_def Let_def)

lemma flagAt_moveLift [simp]: "flagAt (moveLift s li f) g d = flagAt s g d"
  by (simp add: flagAt_def)

lemma checkPendingCalls_one:
  assumes "wf_lifts a"
  shows "\<exists>a'. checkPendingCalls a = Inr a' \<and>
           (pendingCalls a' = pendingCalls a \<or> pendingCalls a' = tl (pendingCalls a))"
proof (cases "pendingCalls a")
  case Nil
  then show ?thesis by (simp add: checkPendingCalls_empty)
next
  case (Cons c rest)
  show ?thesis
  proof (cases "some_idle a")
    case True
    then obtain j where "nearest_idle a (floor c) j" using some_idle_nearest[OF assms] by blast
    from checkPendingCalls_dispatch[OF assms Cons this] Cons show ?thesis by simp
  next
    case False
    from checkPendingCalls_requeue[OF assms Cons False] show ?thesis by simp
  qed
qed

text \<open>
  Claim C4. When the last door timer of a trip to floor \<open>g\<close> fires in a reachable state,
  the lift becomes idle and both flags of floor \<open>g\<close> are cleared (the state \<open>arrived\<close>),
  and then \<^verbatim>\<open>checkPendingCalls\<close> runs once on that state: with an empty queue
  nothing more happens; otherwise the front call is removed and the nearest idle lift is
  sent to its floor. \<^verbatim>\<open>checkPendingCalls\<close> itself, in any state whose
  \<^verbatim>\<open>liftStates\<close> has \<^verbatim>\<open>lifts\<close> entries: dispatches the front call when some lift is
  idle; leaves the state as it was, the call back at the front, when none is; and in
  every case removes at most the front call.
\<close>

theorem lift_idle_reaction:
  "(reachable s \<and> k < length (trips s) \<and> phase (trips s ! k) = AwaitClose \<longrightarrow>
      timerFires s k = checkPendingCalls (arrived s k) \<and>
      idle_at (arrived s k) (liftIndex (trips s ! k)) \<and>
      \<not> flagAt (arrived s k) (targetFloor (trips s ! k)) Up \<and>
      \<not> flagAt (arrived s k) (targetFloor (trips s ! k)) Down \<and>
      \<not> flagAt (step s (Timer k)) (targetFloor (trips s ! k)) Up \<and>
      \<not> flagAt (step s (Timer k)) (targetFloor (trips s ! k)) Down \<and>
      (pendingCalls s = [] \<longrightarrow> step s (Timer k) = arrived s k) \<and>
      (\<forall>c rest. pendingCalls s = c # rest \<longrightarrow>
         pendingCalls (step s (Timer k)) = rest \<and>
         (\<exists>j. nearest_idle (arrived s k) (floor c) j \<and>
              step s (Timer k) = moveLift ((arrived s k)\<lparr>pendingCalls := rest\<rparr>) (int j) (floor c)))) \<and>
   (wf_lifts a \<and> pendingCalls a = c # rest \<and> some_idle a \<longrightarrow>
      (\<exists>j. nearest_idle a (floor c) j \<and>
           checkPendingCalls a = Inr (moveLift (a\<lparr>pendingCalls := rest\<rparr>) (int j) (floor c)))) \<and>
   (wf_lifts a \<and> pendingCalls a = c # rest \<and> \<not> some_idle a \<longrightarrow> checkPendingCalls a = Inr a) \<and>
   (wf_lifts a \<longrightarrow>
      (\<exists>a'. checkPendingCalls a = Inr a' \<and>
            (pendingCalls a' = pendingCalls a \<or> pendingCalls a' = tl (pendingCalls a))))"
proof (intro conjI impI)
  assume a: "reachable s \<and> k < length (trips s) \<and> phase (trips s ! k) = AwaitClose"
  then have inv: "state_inv s" and k: "k < length (trips s)" and ph: "phase (trips s ! k) = AwaitClose"
    by (simp_all add: reachable_inv)
  let ?t = "trips s ! k"
  have core: "core_inv s" using inv by (simp add: state_inv_def)
  have tk: "?t \<in> set (trips s)" using k by simp
  then have i: "liftIndex ?t < length (liftStates s)"
    and g: "0 \<le> targetFloor ?t" "nat (targetFloor ?t) < length (floorCalls s)"
    using core by (auto simp: core_inv_def)
  note out = timer_close_outcome[OF inv k ph]
  show tf: "timerFires s k = checkPendingCalls (arrived s k)"
    by (rule timerFires_AwaitClose[OF k i ph g])
  show "idle_at (arrived s k) (liftIndex ?t)" using i by (simp add: idle_at_arrived)
  show fu: "\<not> flagAt (arrived s k) (targetFloor ?t) Up"
    and fd: "\<not> flagAt (arrived s k) (targetFloor ?t) Down"
    using arrived_flags[OF g refl] by simp_all
  have fl: "\<And>d. flagAt (step s (Timer k)) (targetFloor ?t) d = flagAt (arrived s k) (targetFloor ?t) d"
  proof (cases "pendingCalls s")
    case Nil
    fix d show "flagAt (step s (Timer k)) (targetFloor ?t) d = flagAt (arrived s k) (targetFloor ?t) d"
      using out Nil by simp
  next
    case (Cons c rest)
    fix d show "flagAt (step s (Timer k)) (targetFloor ?t) d = flagAt (arrived s k) (targetFloor ?t) d"
      using out Cons by (simp add: flagAt_def)
  qed
  show "\<not> flagAt (step s (Timer k)) (targetFloor ?t) Up" using fl fu by simp
  show "\<not> flagAt (step s (Timer k)) (targetFloor ?t) Down" using fl fd by simp
  show "step s (Timer k) = arrived s k" if "pendingCalls s = []" using out that by simp
  show "\<forall>c rest. pendingCalls s = c # rest \<longrightarrow>
         pendingCalls (step s (Timer k)) = rest \<and>
         (\<exists>j. nearest_idle (arrived s k) (floor c) j \<and>
              step s (Timer k) = moveLift ((arrived s k)\<lparr>pendingCalls := rest\<rparr>) (int j) (floor c))"
  proof (intro allI impI conjI)
    fix c rest assume q: "pendingCalls s = c # rest"
    then have st: "step s (Timer k) =
        moveLift ((arrived s k)\<lparr>pendingCalls := rest\<rparr>) (int (liftIndex ?t)) (floor c)"
      using out by simp
    then show "pendingCalls (step s (Timer k)) = rest" by simp
    have "nearest_idle (arrived s k) (floor c) (liftIndex ?t)"
      using arrived_nearest[OF inv k] q by simp
    with st show "\<exists>j. nearest_idle (arrived s k) (floor c) j \<and>
              step s (Timer k) = moveLift ((arrived s k)\<lparr>pendingCalls := rest\<rparr>) (int j) (floor c)"
      by blast
  qed
next
  assume a: "wf_lifts a \<and> pendingCalls a = c # rest \<and> some_idle a"
  then obtain j where "nearest_idle a (floor c) j" using some_idle_nearest by blast
  with a checkPendingCalls_dispatch[of a c rest j]
  show "\<exists>j. nearest_idle a (floor c) j \<and>
           checkPendingCalls a = Inr (moveLift (a\<lparr>pendingCalls := rest\<rparr>) (int j) (floor c))"
    by auto
next
  assume "wf_lifts a \<and> pendingCalls a = c # rest \<and> \<not> some_idle a"
  then show "checkPendingCalls a = Inr a" using checkPendingCalls_requeue by blast
next
  assume "wf_lifts a"
  then show "\<exists>a'. checkPendingCalls a = Inr a' \<and>
            (pendingCalls a' = pendingCalls a \<or> pendingCalls a' = tl (pendingCalls a))"
    by (rule checkPendingCalls_one)
qed

lemma arrived_two_queued:
  "arrived two_queued 0 =
     \<lparr>floors = 3, lifts = 1, liftStates = [\<lparr>currentFloor = 2, status = Idle\<rparr>],
      floorCalls = [\<lparr>up = False, down = False\<rparr>, \<lparr>up = False, down = False\<rparr>,
                    \<lparr>up = False, down = False\<rparr>, \<lparr>up = False, down = True\<rparr>],
      pendingCalls = [\<lparr>floor = 3, direction = Down\<rparr>, \<lparr>floor = 2, direction = Down\<rparr>],
      trips = []\<rparr>"
  by (simp add: two_queued_eq arrived_def Let_def)

theorem lift_idle_reaction_witness:
  "reachable two_queued \<and> 0 < length (trips two_queued) \<and> phase (trips two_queued ! 0) = AwaitClose \<and>
   targetFloor (trips two_queued ! 0) = 2 \<and>
   flagAt two_queued 2 Up \<and> flagAt two_queued 2 Down \<and>
   \<not> flagAt (step two_queued (Timer 0)) 2 Up \<and> \<not> flagAt (step two_queued (Timer 0)) 2 Down \<and>
   pendingCalls two_queued = [\<lparr>floor = 3, direction = Down\<rparr>, \<lparr>floor = 2, direction = Down\<rparr>] \<and>
   pendingCalls (step two_queued (Timer 0)) = [\<lparr>floor = 2, direction = Down\<rparr>] \<and>
   wf_lifts two_queued \<and> \<not> some_idle two_queued \<and> checkPendingCalls two_queued = Inr two_queued"
proof -
  have h: "reachable two_queued \<and> 0 < length (trips two_queued) \<and>
           phase (trips two_queued ! 0) = AwaitClose"
    by (intro conjI two_queued_reachable two_queued_facts)
  have w: "wf_lifts two_queued" by (simp add: wf_lifts_def two_queued_eq)
  have h3: "wf_lifts two_queued \<and>
     pendingCalls two_queued = \<lparr>floor = 3, direction = Down\<rparr> # [\<lparr>floor = 2, direction = Down\<rparr>] \<and>
     \<not> some_idle two_queued"
    by (intro conjI w two_queued_facts)
  note T = lift_idle_reaction[of two_queued 0 two_queued "\<lparr>floor = 3, direction = Down\<rparr>"
      "[\<lparr>floor = 2, direction = Down\<rparr>]"]
  note T1 = T[THEN conjunct1, THEN mp, OF h]
  have tg: "targetFloor (trips two_queued ! 0) = 2" by (simp add: two_queued_eq)
  have f: "flagAt two_queued 2 Up" "flagAt two_queued 2 Down"
    by (simp_all add: two_queued_eq flagAt_def)
  from T1 have "\<not> flagAt (step two_queued (Timer 0)) (targetFloor (trips two_queued ! 0)) Up"
    "\<not> flagAt (step two_queued (Timer 0)) (targetFloor (trips two_queued ! 0)) Down"
    by blast+
  then have c: "\<not> flagAt (step two_queued (Timer 0)) 2 Up" "\<not> flagAt (step two_queued (Timer 0)) 2 Down"
    unfolding tg .
  from T1 two_queued_facts(7)
  have q: "pendingCalls (step two_queued (Timer 0)) = [\<lparr>floor = 2, direction = Down\<rparr>]" by blast
  from T[THEN conjunct2, THEN conjunct2, THEN conjunct1, THEN mp, OF h3]
  have r: "checkPendingCalls two_queued = Inr two_queued" .
  show ?thesis
    using two_queued_reachable two_queued_facts(3,5,6,7) tg f c q w r by (intro conjI) simp_all
qed


section \<open>Queued calls and the registry\<close>


lemma served_floor_still_queued_eq:
  "served_floor_still_queued =
     \<lparr>floors = 3, lifts = 1, liftStates = [\<lparr>currentFloor = 2, status = Moving\<rparr>],
      floorCalls = [\<lparr>up = False, down = False\<rparr>, \<lparr>up = False, down = False\<rparr>,
                    \<lparr>up = False, down = False\<rparr>, \<lparr>up = False, down = True\<rparr>],
      pendingCalls = [\<lparr>floor = 2, direction = Down\<rparr>],
      trips = [\<lparr>liftIndex = 0, targetFloor = 3, phase = AwaitMove, timer = 2000\<rparr>]\<rparr>"
  by (simp add: served_floor_still_queued_def two_queued_eq eval_defs)

lemma served_floor_still_queued_reachable: "reachable served_floor_still_queued"
  unfolding served_floor_still_queued_def
  by (rule reachable.next_event[OF two_queued_reachable]) (simp add: two_queued_eq)



lemma flagAt_pending [simp]: "flagAt (s\<lparr>pendingCalls := q\<rparr>) g e = flagAt s g e"
  by (simp add: flagAt_def)



lemma floorCalls_checkPendingCalls [simp]:
  "floorCalls (state_of (checkPendingCalls a)) = floorCalls a"
  by (simp add: checkPendingCalls_def Let_def split: list.splits sum.splits)











section \<open>Draining ignores the registry\<close>


lemma checkPendingCalls_floorCalls:
  assumes "wf_lifts s"
  shows "checkPendingCalls (s\<lparr>floorCalls := fc\<rparr>) = with_floorCalls fc (checkPendingCalls s)"
proof (cases "pendingCalls s")
  case Nil
  then show ?thesis by (simp add: checkPendingCalls_def)
next
  case (Cons c rest)
  have w: "wf_lifts (s\<lparr>pendingCalls := rest\<rparr>)" using assms by (simp add: wf_lifts_def)
  have "findNearestIdleLift (s\<lparr>floorCalls := fc, pendingCalls := rest\<rparr>) (floor c) =
        findNearestIdleLift (s\<lparr>pendingCalls := rest\<rparr>) (floor c)"
    by (rule find_cong[OF w]) simp_all
  then show ?thesis
    using Cons by (simp add: checkPendingCalls_def Let_def moveLift_def split: sum.splits)
qed

text \<open>What the three timers of a trip do when they fire one after the other.\<close>

lemma trip_lifecycle:
  assumes "core_inv s" "k < length (trips s)" "phase (trips s ! k) = AwaitMove"
  shows "phase (trips (step s (Timer k)) ! k) = AwaitOpen \<and>
         timer (trips (step s (Timer k)) ! k) = 2500 \<and>
         currentFloor (liftStates (step s (Timer k)) ! liftIndex (trips s ! k)) = targetFloor (trips s ! k) \<and>
         status (liftStates (step s (Timer k)) ! liftIndex (trips s ! k)) = Moving \<and>
         phase (trips (run s [Timer k, Timer k]) ! k) = AwaitClose \<and>
         timer (trips (run s [Timer k, Timer k]) ! k) = 2500 \<and>
         status (liftStates (run s [Timer k, Timer k]) ! liftIndex (trips s ! k)) = Moving \<and>
         run s [Timer k, Timer k, Timer k] =
           state_of (checkPendingCalls (arrived (run s [Timer k, Timer k]) k)) \<and>
         pendingCalls (arrived (run s [Timer k, Timer k]) k) = pendingCalls s \<and>
         status (liftStates (arrived (run s [Timer k, Timer k]) k) ! liftIndex (trips s ! k)) = Idle \<and>
         currentFloor (liftStates (arrived (run s [Timer k, Timer k]) k) ! liftIndex (trips s ! k)) =
           targetFloor (trips s ! k) \<and>
         \<not> flagAt (arrived (run s [Timer k, Timer k]) k) (targetFloor (trips s ! k)) Up \<and>
         \<not> flagAt (arrived (run s [Timer k, Timer k]) k) (targetFloor (trips s ! k)) Down \<and>
         trips (arrived (run s [Timer k, Timer k]) k) = take k (trips s) @ drop (Suc k) (trips s)"
proof -
  let ?t = "trips s ! k"
  let ?i = "liftIndex ?t"
  let ?g = "targetFloor ?t"
  have tk: "?t \<in> set (trips s)" using assms(2) by simp
  then have i: "?i < length (liftStates s)"
    and g: "0 \<le> ?g" "nat ?g < length (floorCalls s)"
    using assms(1) by (auto simp: core_inv_def)
  have mv: "status (liftStates s ! ?i) = Moving"
    using assms(1) i tk by (auto simp: core_inv_def)
  let ?s1 = "s\<lparr>liftStates := (liftStates s)[?i := (liftStates s ! ?i)\<lparr>currentFloor := ?g\<rparr>],
               trips := (trips s)[k := ?t\<lparr>phase := AwaitOpen, timer := 2500\<rparr>]\<rparr>"
  let ?s2 = "?s1\<lparr>trips := (trips s)[k := ?t\<lparr>phase := AwaitClose, timer := 2500\<rparr>]\<rparr>"
  have s1: "step s (Timer k) = ?s1"
    using timerFires_AwaitMove[OF assms(2) i assms(3)] by simp
  have "timerFires ?s1 k = Inr ?s2"
    using assms(2) i by (simp add: timerFires_def Let_def)
  then have s2: "run s [Timer k, Timer k] = ?s2" using s1 by simp
  have "timerFires ?s2 k = checkPendingCalls (arrived ?s2 k)"
    using assms(2) i g by (simp add: timerFires_def arrived_def Let_def)
  then have s3: "run s [Timer k, Timer k, Timer k] = state_of (checkPendingCalls (arrived ?s2 k))"
    using s1 s2 \<open>timerFires ?s1 k = Inr ?s2\<close> by simp
  have a: "pendingCalls (arrived ?s2 k) = pendingCalls s"
    "status (liftStates (arrived ?s2 k) ! ?i) = Idle"
    "currentFloor (liftStates (arrived ?s2 k) ! ?i) = ?g"
    "\<not> flagAt (arrived ?s2 k) ?g Up" "\<not> flagAt (arrived ?s2 k) ?g Down"
    "trips (arrived ?s2 k) = take k (trips s) @ drop (Suc k) (trips s)"
    using assms(2) i g by (simp_all add: arrived_def Let_def flagAt_def)
  show ?thesis
    unfolding s3 unfolding s2 s1 using assms(2) i mv a by simp
qed


lemma step_reachable: "reachable s \<Longrightarrow> valid_event s e \<Longrightarrow> core_inv (step s e)"
  using reachable.next_event reachable_inv state_inv_def by blast

text \<open>
  Claim C10. \<^verbatim>\<open>checkPendingCalls\<close> does not read the registry: with another registry
  it does the same and leaves that registry behind. So a queued call whose flag is false
  is dispatched like any other when some lift is idle. In a reachable state, when the
  last door timer of a trip fires and the front call's flag is false, that call is
  removed from the queue and a trip to its floor starts; when the three timers of that
  trip then fire, the lift gets that floor as its current floor, the doors cycle, and the
  lift is idle there, both flags of the floor false, when \<^verbatim>\<open>checkPendingCalls\<close> runs.
\<close>

theorem drain_ignores_registry:
  "(wf_lifts s \<longrightarrow> checkPendingCalls (s\<lparr>floorCalls := fc\<rparr>) = with_floorCalls fc (checkPendingCalls s)) \<and>
   (wf_lifts s \<and> pendingCalls s = c # rest \<and> some_idle s \<and> \<not> flagAt s (floor c) (direction c) \<longrightarrow>
      (\<exists>i. nearest_idle s (floor c) i \<and>
           checkPendingCalls s = Inr (moveLift (s\<lparr>pendingCalls := rest\<rparr>) (int i) (floor c)) \<and>
           trips (moveLift (s\<lparr>pendingCalls := rest\<rparr>) (int i) (floor c)) =
             trips s @ [\<lparr>liftIndex = i, targetFloor = floor c, phase = AwaitMove,
                          timer = \<bar>floor c - currentFloor (liftStates s ! i)\<bar> * 2000\<rparr>])) \<and>
   (reachable s \<and> k < length (trips s) \<and> phase (trips s ! k) = AwaitClose \<and>
    pendingCalls s = c # rest \<and> \<not> flagAt (arrived s k) (floor c) (direction c) \<longrightarrow>
      (let s' = step s (Timer k); n = length (trips s') - 1; i = liftIndex (trips s' ! n);
           a = arrived (run s' [Timer n, Timer n]) n
       in pendingCalls s' = rest \<and> i = liftIndex (trips s ! k) \<and>
          targetFloor (trips s' ! n) = floor c \<and> phase (trips s' ! n) = AwaitMove \<and>
          currentFloor (liftStates (step s' (Timer n)) ! i) = floor c \<and>
          phase (trips (step s' (Timer n)) ! n) = AwaitOpen \<and>
          phase (trips (run s' [Timer n, Timer n]) ! n) = AwaitClose \<and>
          run s' [Timer n, Timer n, Timer n] = state_of (checkPendingCalls a) \<and>
          status (liftStates a ! i) = Idle \<and> currentFloor (liftStates a ! i) = floor c \<and>
          \<not> flagAt a (floor c) Up \<and> \<not> flagAt a (floor c) Down))"
proof (intro conjI impI)
  assume "wf_lifts s"
  then show "checkPendingCalls (s\<lparr>floorCalls := fc\<rparr>) = with_floorCalls fc (checkPendingCalls s)"
    by (rule checkPendingCalls_floorCalls)
next
  assume a: "wf_lifts s \<and> pendingCalls s = c # rest \<and> some_idle s \<and> \<not> flagAt s (floor c) (direction c)"
  then obtain i where i: "nearest_idle s (floor c) i" using some_idle_nearest by blast
  then have il: "i < length (liftStates s)" by (simp add: nearest_idle_def)
  from a checkPendingCalls_dispatch[of s c rest i] i
  have "checkPendingCalls s = Inr (moveLift (s\<lparr>pendingCalls := rest\<rparr>) (int i) (floor c))" by simp
  moreover have "trips (moveLift (s\<lparr>pendingCalls := rest\<rparr>) (int i) (floor c)) =
             trips s @ [\<lparr>liftIndex = i, targetFloor = floor c, phase = AwaitMove,
                          timer = \<bar>floor c - currentFloor (liftStates s ! i)\<bar> * 2000\<rparr>]"
    using il by (simp add: trips_after_moveLift)
  ultimately show "\<exists>i. nearest_idle s (floor c) i \<and>
           checkPendingCalls s = Inr (moveLift (s\<lparr>pendingCalls := rest\<rparr>) (int i) (floor c)) \<and>
           trips (moveLift (s\<lparr>pendingCalls := rest\<rparr>) (int i) (floor c)) =
             trips s @ [\<lparr>liftIndex = i, targetFloor = floor c, phase = AwaitMove,
                          timer = \<bar>floor c - currentFloor (liftStates s ! i)\<bar> * 2000\<rparr>]"
    using i by blast
next
  assume a: "reachable s \<and> k < length (trips s) \<and> phase (trips s ! k) = AwaitClose \<and>
    pendingCalls s = c # rest \<and> \<not> flagAt (arrived s k) (floor c) (direction c)"
  then have inv: "state_inv s" and k: "k < length (trips s)" by (simp_all add: reachable_inv)
  have core: "core_inv s" using inv by (simp add: state_inv_def)
  have i: "liftIndex (trips s ! k) < length (liftStates s)" using core k by (simp add: core_inv_def)
  let ?s' = "step s (Timer k)"
  let ?new = "\<lparr>liftIndex = liftIndex (trips s ! k), targetFloor = floor c, phase = AwaitMove,
            timer = \<bar>floor c - currentFloor (liftStates (arrived s k) ! liftIndex (trips s ! k))\<bar> * 2000\<rparr>"
  from timer_close_outcome[OF inv k] a
  have st: "?s' = moveLift ((arrived s k)\<lparr>pendingCalls := rest\<rparr>) (int (liftIndex (trips s ! k))) (floor c)"
    by simp
  then have tr: "trips ?s' = trips (arrived s k) @ [?new]"
    using i by (simp add: trips_after_moveLift)
  let ?n = "length (trips (arrived s k))"
  have ne: "length (trips ?s') - 1 = ?n" by (simp add: tr del: step.simps)
  have n: "?n < length (trips ?s')" "trips ?s' ! ?n = ?new" by (simp_all add: tr del: step.simps)
  have core': "core_inv ?s'" using step_reachable[of s "Timer k"] a by simp
  have ph: "phase (trips ?s' ! ?n) = AwaitMove" by (simp add: n del: step.simps)
  note L = trip_lifecycle[OF core' n(1) ph]
  have q: "pendingCalls ?s' = rest" using st by simp
  show "let s' = step s (Timer k); n = length (trips s') - 1; i = liftIndex (trips s' ! n);
           a = arrived (run s' [Timer n, Timer n]) n
       in pendingCalls s' = rest \<and> i = liftIndex (trips s ! k) \<and>
          targetFloor (trips s' ! n) = floor c \<and> phase (trips s' ! n) = AwaitMove \<and>
          currentFloor (liftStates (step s' (Timer n)) ! i) = floor c \<and>
          phase (trips (step s' (Timer n)) ! n) = AwaitOpen \<and>
          phase (trips (run s' [Timer n, Timer n]) ! n) = AwaitClose \<and>
          run s' [Timer n, Timer n, Timer n] = state_of (checkPendingCalls a) \<and>
          status (liftStates a ! i) = Idle \<and> currentFloor (liftStates a ! i) = floor c \<and>
          \<not> flagAt a (floor c) Up \<and> \<not> flagAt a (floor c) Down"
    unfolding Let_def ne using L q by (simp add: n(2) del: step.simps run.simps)
qed


lemma stale_call_due_eq:
  "stale_call_due =
     \<lparr>floors = 3, lifts = 1, liftStates = [\<lparr>currentFloor = 3, status = Moving\<rparr>],
      floorCalls = [\<lparr>up = False, down = False\<rparr>, \<lparr>up = False, down = False\<rparr>,
                    \<lparr>up = False, down = False\<rparr>, \<lparr>up = False, down = True\<rparr>],
      pendingCalls = [\<lparr>floor = 2, direction = Down\<rparr>],
      trips = [\<lparr>liftIndex = 0, targetFloor = 3, phase = AwaitClose, timer = 2500\<rparr>]\<rparr>"
  by (simp add: stale_call_due_def served_floor_still_queued_eq eval_defs)

lemma stale_call_due_reachable: "reachable stale_call_due"
  unfolding stale_call_due_def
  by (rule valid_run_reachable[OF served_floor_still_queued_reachable])
     (simp add: served_floor_still_queued_eq eval_defs)

lemma stale_call_dispatched:
  "step stale_call_due (Timer 0) =
     \<lparr>floors = 3, lifts = 1, liftStates = [\<lparr>currentFloor = 3, status = Moving\<rparr>],
      floorCalls = [\<lparr>up = False, down = False\<rparr>, \<lparr>up = False, down = False\<rparr>,
                    \<lparr>up = False, down = False\<rparr>, \<lparr>up = False, down = False\<rparr>],
      pendingCalls = [],
      trips = [\<lparr>liftIndex = 0, targetFloor = 2, phase = AwaitMove, timer = 2000\<rparr>]\<rparr>"
  by (simp add: stale_call_due_eq eval_defs)

theorem drain_ignores_registry_witness:
  "reachable stale_call_due \<and> phase (trips stale_call_due ! 0) = AwaitClose \<and>
   pendingCalls stale_call_due = [\<lparr>floor = 2, direction = Down\<rparr>] \<and>
   \<not> flagAt stale_call_due 2 Down \<and> \<not> flagAt (arrived stale_call_due 0) 2 Down \<and>
   trips (step stale_call_due (Timer 0)) =
     [\<lparr>liftIndex = 0, targetFloor = 2, phase = AwaitMove, timer = 2000\<rparr>] \<and>
   currentFloor (liftStates (step (step stale_call_due (Timer 0)) (Timer 0)) ! 0) = 2 \<and>
   phase (trips (run (step stale_call_due (Timer 0)) [Timer 0, Timer 0]) ! 0) = AwaitClose \<and>
   status (liftStates (arrived (run (step stale_call_due (Timer 0)) [Timer 0, Timer 0]) 0) ! 0) = Idle \<and>
   currentFloor (liftStates (arrived (run (step stale_call_due (Timer 0)) [Timer 0, Timer 0]) 0) ! 0) = 2"
proof -
  have f: "\<not> flagAt stale_call_due 2 Down" "\<not> flagAt (arrived stale_call_due 0) 2 Down"
    by (simp_all add: stale_call_due_eq flagAt_def arrived_def Let_def)
  have p: "phase (trips stale_call_due ! 0) = AwaitClose"
    "pendingCalls stale_call_due = [\<lparr>floor = 2, direction = Down\<rparr>]"
    "0 < length (trips stale_call_due)"
    by (simp_all add: stale_call_due_eq)
  have h: "reachable stale_call_due \<and> 0 < length (trips stale_call_due) \<and>
    phase (trips stale_call_due ! 0) = AwaitClose \<and>
    pendingCalls stale_call_due = \<lparr>floor = 2, direction = Down\<rparr> # [] \<and>
    \<not> flagAt (arrived stale_call_due 0) (floor \<lparr>floor = 2, direction = Down\<rparr>)
         (direction \<lparr>floor = 2, direction = Down\<rparr>)"
    using stale_call_due_reachable p f by simp
  have tr: "trips (step stale_call_due (Timer 0)) =
     [\<lparr>liftIndex = 0, targetFloor = 2, phase = AwaitMove, timer = 2000\<rparr>]"
    by (simp only: stale_call_dispatched) simp
  have n: "length (trips (step stale_call_due (Timer 0))) - 1 = 0"
    "liftIndex (trips (step stale_call_due (Timer 0)) ! 0) = 0"
    by (simp_all only: tr) simp_all
  from drain_ignores_registry[of stale_call_due fc "\<lparr>floor = 2, direction = Down\<rparr>" "[]" 0,
      THEN conjunct2, THEN conjunct2, THEN mp, OF h]
  have c: "currentFloor (liftStates (step (step stale_call_due (Timer 0)) (Timer 0)) ! 0) = 2"
    "phase (trips (run (step stale_call_due (Timer 0)) [Timer 0, Timer 0]) ! 0) = AwaitClose"
    "status (liftStates (arrived (run (step stale_call_due (Timer 0)) [Timer 0, Timer 0]) 0) ! 0) = Idle"
    "currentFloor (liftStates (arrived (run (step stale_call_due (Timer 0)) [Timer 0, Timer 0]) 0) ! 0) = 2"
    unfolding Let_def n by simp_all
  show ?thesis using stale_call_due_reachable p(1,2) f tr c by (intro conjI)
qed


section \<open>A call at the floor where an idle lift rests\<close>

text \<open>
  C8 as stated fails: after a click at floor 1, where the idle lift rests, the lift's
  status is \<^verbatim>\<open>'moving'\<close> and its activation waits for the travel timer, of 0 ms; the
  doors have not been opened.
\<close>

theorem same_floor_counterexample:
  "idle_at sim_3_1 0 \<and> currentFloor (liftStates sim_3_1 ! 0) = 1 \<and>
   status (liftStates (step sim_3_1 (Click 1 Up)) ! 0) = Moving \<and>
   trips (step sim_3_1 (Click 1 Up)) =
     [\<lparr>liftIndex = 0, targetFloor = 1, phase = AwaitMove, timer = 0\<rparr>]"
  by (simp add: sim_3_1_def idle_at_def eval_defs)

lemma nearest_at_floor:
  assumes "nearest_idle s f j" "i < length (liftStates s)" "idle_at s i"
    "currentFloor (liftStates s ! i) = f"
  shows "currentFloor (liftStates s ! j) = f"
proof -
  have "distance_to s f j \<le> distance_to s f i" using assms(1-3) by (simp add: nearest_idle_def)
  then show ?thesis using assms(4) by (simp add: distance_to_def)
qed

text \<open>
  Claim C8, as amended. In a reachable state, a click on an existing button of floor
  \<open>f\<close> whose flag is not set, while some idle lift rests at \<open>f\<close>, dispatches an idle lift
  \<open>j\<close> that rests at \<open>f\<close>: its status becomes \<^verbatim>\<open>'moving'\<close> and its activation waits
  for a travel timer of 0 ms. When the three timers of that trip then fire, the lift's
  floor stays \<open>f\<close>, the doors open and close (2500 ms each), and the lift ends idle at
  \<open>f\<close> with both flags of \<open>f\<close> false.
\<close>

theorem same_floor_call:
  "reachable s \<and> button_exists s f d \<and> \<not> flagAt s f d \<and>
   i < length (liftStates s) \<and> idle_at s i \<and> currentFloor (liftStates s ! i) = f \<longrightarrow>
   (\<exists>j. nearest_idle s f j \<and> currentFloor (liftStates s ! j) = f \<and>
      (let s1 = step s (Click f d); n = length (trips s); s3 = run s1 [Timer n, Timer n];
           s4 = run s1 [Timer n, Timer n, Timer n]
       in status (liftStates s1 ! j) = Moving \<and>
          trips s1 = trips s @ [\<lparr>liftIndex = j, targetFloor = f, phase = AwaitMove, timer = 0\<rparr>] \<and>
          currentFloor (liftStates (step s1 (Timer n)) ! j) = f \<and>
          status (liftStates (step s1 (Timer n)) ! j) = Moving \<and>
          phase (trips (step s1 (Timer n)) ! n) = AwaitOpen \<and>
          timer (trips (step s1 (Timer n)) ! n) = 2500 \<and>
          status (liftStates s3 ! j) = Moving \<and>
          phase (trips s3 ! n) = AwaitClose \<and> timer (trips s3 ! n) = 2500 \<and>
          status (liftStates s4 ! j) = Idle \<and> currentFloor (liftStates s4 ! j) = f \<and>
          \<not> flagAt s4 f Up \<and> \<not> flagAt s4 f Down \<and> trips s4 = trips s))"
proof
  assume a: "reachable s \<and> button_exists s f d \<and> \<not> flagAt s f d \<and>
   i < length (liftStates s) \<and> idle_at s i \<and> currentFloor (liftStates s ! i) = f"
  then have inv: "state_inv s" by (simp add: reachable_inv)
  then have core: "core_inv s" and w: "wf_lifts s" by (simp_all add: state_inv_def core_inv_def)
  from a have b: "button_exists s f d" by simp
  from button_in_range[OF core b] have rg: "0 \<le> f" "nat f < length (floorCalls s)" by simp_all
  with a have nf: "\<not> getFlag (floorCalls s ! nat f) d" by (simp add: flagAt_def)
  have si: "some_idle s" using a by (auto simp: some_idle_def)
  then have q: "pendingCalls s = []" using inv by (auto simp: state_inv_def)
  from si obtain j where j: "nearest_idle s f j" using some_idle_nearest[OF w] by blast
  then have jl: "j < length (liftStates s)" by (simp add: nearest_idle_def)
  have jf: "currentFloor (liftStates s ! j) = f" using nearest_at_floor[OF j, of i] a by blast
  let ?s0 = "s\<lparr>floorCalls := (floorCalls s)[nat f := setFlag (floorCalls s ! nat f) d True]\<rparr>"
  let ?s1 = "step s (Click f d)"
  let ?n = "length (trips s)"
  let ?new = "\<lparr>liftIndex = j, targetFloor = f, phase = AwaitMove, timer = 0\<rparr>"
  have s1: "?s1 = moveLift ?s0 (int j) f" using callLift_dispatch[OF w rg nf j] by simp
  have tr: "trips ?s1 = trips s @ [?new]"
    using jl jf by (simp add: s1 trips_after_moveLift del: step.simps)
  have st: "status (liftStates ?s1 ! j) = Moving"
    using jl by (simp add: s1 moveLift_valid del: step.simps)
  have q1: "pendingCalls ?s1 = []" using q by (simp add: s1 del: step.simps)
  have core1: "core_inv ?s1" using step_reachable[of s "Click f d"] a by simp
  have n: "?n < length (trips ?s1)" "trips ?s1 ! ?n = ?new" by (simp_all add: tr del: step.simps)
  have ph: "phase (trips ?s1 ! ?n) = AwaitMove" by (simp add: n del: step.simps)
  note L = trip_lifecycle[OF core1 n(1) ph]
  let ?a = "arrived (run ?s1 [Timer ?n, Timer ?n]) ?n"
  have pa: "pendingCalls ?a = []" using L q1 by (simp del: step.simps run.simps)
  then have s4: "run ?s1 [Timer ?n, Timer ?n, Timer ?n] = ?a"
    using L by (simp add: checkPendingCalls_empty del: step.simps run.simps)
  have ta: "trips ?a = trips s"
    using L by (simp add: tr del: step.simps run.simps)
  show "\<exists>j. nearest_idle s f j \<and> currentFloor (liftStates s ! j) = f \<and>
      (let s1 = step s (Click f d); n = length (trips s); s3 = run s1 [Timer n, Timer n];
           s4 = run s1 [Timer n, Timer n, Timer n]
       in status (liftStates s1 ! j) = Moving \<and>
          trips s1 = trips s @ [\<lparr>liftIndex = j, targetFloor = f, phase = AwaitMove, timer = 0\<rparr>] \<and>
          currentFloor (liftStates (step s1 (Timer n)) ! j) = f \<and>
          status (liftStates (step s1 (Timer n)) ! j) = Moving \<and>
          phase (trips (step s1 (Timer n)) ! n) = AwaitOpen \<and>
          timer (trips (step s1 (Timer n)) ! n) = 2500 \<and>
          status (liftStates s3 ! j) = Moving \<and>
          phase (trips s3 ! n) = AwaitClose \<and> timer (trips s3 ! n) = 2500 \<and>
          status (liftStates s4 ! j) = Idle \<and> currentFloor (liftStates s4 ! j) = f \<and>
          \<not> flagAt s4 f Up \<and> \<not> flagAt s4 f Down \<and> trips s4 = trips s)"
    apply (rule exI[of _ j])
    unfolding Let_def s4
    using j jf st tr L ta by (simp add: n(2) del: step.simps run.simps)
qed


theorem same_floor_call_witness:
  "reachable sim_3_1 \<and> button_exists sim_3_1 1 Up \<and> \<not> flagAt sim_3_1 1 Up \<and>
   idle_at sim_3_1 0 \<and> currentFloor (liftStates sim_3_1 ! 0) = 1 \<and>
   status (liftStates (step sim_3_1 (Click 1 Up)) ! 0) = Moving \<and>
   trips (step sim_3_1 (Click 1 Up)) =
     [\<lparr>liftIndex = 0, targetFloor = 1, phase = AwaitMove, timer = 0\<rparr>] \<and>
   phase (trips (step (step sim_3_1 (Click 1 Up)) (Timer 0)) ! 0) = AwaitOpen \<and>
   phase (trips (run (step sim_3_1 (Click 1 Up)) [Timer 0, Timer 0]) ! 0) = AwaitClose \<and>
   status (liftStates (run (step sim_3_1 (Click 1 Up)) [Timer 0, Timer 0, Timer 0]) ! 0) = Idle \<and>
   currentFloor (liftStates (run (step sim_3_1 (Click 1 Up)) [Timer 0, Timer 0, Timer 0]) ! 0) = 1 \<and>
   trips (run (step sim_3_1 (Click 1 Up)) [Timer 0, Timer 0, Timer 0]) = []"
proof -
  have f: "button_exists sim_3_1 1 Up" "\<not> flagAt sim_3_1 1 Up" "0 < length (liftStates sim_3_1)"
    "idle_at sim_3_1 0" "currentFloor (liftStates sim_3_1 ! 0) = 1"
    by (simp_all add: sim_3_1_def button_exists_def flagAt_def idle_at_def)
  have l: "length (trips sim_3_1) = 0" "trips sim_3_1 = []" "length (liftStates sim_3_1) = 1"
    by (simp_all add: sim_3_1_def)
  have h: "reachable sim_3_1 \<and> button_exists sim_3_1 1 Up \<and> \<not> flagAt sim_3_1 1 Up \<and>
   0 < length (liftStates sim_3_1) \<and> idle_at sim_3_1 0 \<and> currentFloor (liftStates sim_3_1 ! 0) = 1"
    by (intro conjI sim_3_1_reachable f)
  from same_floor_call[of sim_3_1 1 Up 0, THEN mp, OF h]
  obtain j where j: "nearest_idle sim_3_1 1 j"
    and c: "let s1 = step sim_3_1 (Click 1 Up); n = length (trips sim_3_1);
           s3 = run s1 [Timer n, Timer n]; s4 = run s1 [Timer n, Timer n, Timer n]
       in status (liftStates s1 ! j) = Moving \<and>
          trips s1 = trips sim_3_1 @ [\<lparr>liftIndex = j, targetFloor = 1, phase = AwaitMove, timer = 0\<rparr>] \<and>
          currentFloor (liftStates (step s1 (Timer n)) ! j) = 1 \<and>
          status (liftStates (step s1 (Timer n)) ! j) = Moving \<and>
          phase (trips (step s1 (Timer n)) ! n) = AwaitOpen \<and>
          timer (trips (step s1 (Timer n)) ! n) = 2500 \<and>
          status (liftStates s3 ! j) = Moving \<and>
          phase (trips s3 ! n) = AwaitClose \<and> timer (trips s3 ! n) = 2500 \<and>
          status (liftStates s4 ! j) = Idle \<and> currentFloor (liftStates s4 ! j) = 1 \<and>
          \<not> flagAt s4 1 Up \<and> \<not> flagAt s4 1 Down \<and> trips s4 = trips sim_3_1"
    by blast
  from j have j0: "j = 0" by (simp add: nearest_idle_def l)
  from c have c': "status (liftStates (step sim_3_1 (Click 1 Up)) ! 0) = Moving"
    "trips (step sim_3_1 (Click 1 Up)) = [\<lparr>liftIndex = 0, targetFloor = 1, phase = AwaitMove, timer = 0\<rparr>]"
    "phase (trips (step (step sim_3_1 (Click 1 Up)) (Timer 0)) ! 0) = AwaitOpen"
    "phase (trips (run (step sim_3_1 (Click 1 Up)) [Timer 0, Timer 0]) ! 0) = AwaitClose"
    "status (liftStates (run (step sim_3_1 (Click 1 Up)) [Timer 0, Timer 0, Timer 0]) ! 0) = Idle"
    "currentFloor (liftStates (run (step sim_3_1 (Click 1 Up)) [Timer 0, Timer 0, Timer 0]) ! 0) = 1"
    "trips (run (step sim_3_1 (Click 1 Up)) [Timer 0, Timer 0, Timer 0]) = []"
    unfolding Let_def j0 l by (simp_all del: step.simps run.simps)
  show ?thesis using sim_3_1_reachable f(1,2,4,5) c' by (intro conjI)
qed


section \<open>A second click on a pressed button\<close>

lemma callLift_pressed: "flagAt s f d \<Longrightarrow> callLift s f d = Inr s"
  by (simp add: flagAt_def callLift_def)


lemma pressed_once_eq:
  "pressed_once =
     \<lparr>floors = 3, lifts = 2,
      liftStates = [\<lparr>currentFloor = 1, status = Moving\<rparr>, \<lparr>currentFloor = 1, status = Idle\<rparr>],
      floorCalls = [\<lparr>up = False, down = False\<rparr>, \<lparr>up = False, down = False\<rparr>,
                    \<lparr>up = True, down = False\<rparr>, \<lparr>up = False, down = False\<rparr>],
      pendingCalls = [],
      trips = [\<lparr>liftIndex = 0, targetFloor = 2, phase = AwaitMove, timer = 2000\<rparr>]\<rparr>"
  by (simp add: pressed_once_def sim_3_2_def callLift_unguarded_def eval_defs)

text \<open>
  Claim C5 on the \<^verbatim>\<open>callLift\<close> of main.js 336-345, which has no guard: a second click
  on the up button of floor 2, whose flag is set, sends the second lift to floor 2 as
  well. The \<^verbatim>\<open>callLift\<close> of main.js 91-106 returns the state unchanged there.
\<close>

theorem unguarded_duplicate_dispatches:
  "button_exists pressed_once 2 Up \<and> flagAt pressed_once 2 Up \<and>
   trips pressed_once = [\<lparr>liftIndex = 0, targetFloor = 2, phase = AwaitMove, timer = 2000\<rparr>] \<and>
   trips (state_of (callLift_unguarded pressed_once 2 Up)) =
     [\<lparr>liftIndex = 0, targetFloor = 2, phase = AwaitMove, timer = 2000\<rparr>,
      \<lparr>liftIndex = 1, targetFloor = 2, phase = AwaitMove, timer = 2000\<rparr>] \<and>
   status (liftStates (state_of (callLift_unguarded pressed_once 2 Up)) ! 1) = Moving \<and>
   callLift pressed_once 2 Up = Inr pressed_once"
proof -
  have a: "button_exists pressed_once 2 Up" "flagAt pressed_once 2 Up"
    "trips pressed_once = [\<lparr>liftIndex = 0, targetFloor = 2, phase = AwaitMove, timer = 2000\<rparr>]"
    by (simp_all add: pressed_once_eq button_exists_def flagAt_def)
  have b: "trips (state_of (callLift_unguarded pressed_once 2 Up)) =
     [\<lparr>liftIndex = 0, targetFloor = 2, phase = AwaitMove, timer = 2000\<rparr>,
      \<lparr>liftIndex = 1, targetFloor = 2, phase = AwaitMove, timer = 2000\<rparr>]"
    "status (liftStates (state_of (callLift_unguarded pressed_once 2 Up)) ! 1) = Moving"
    by (simp_all add: pressed_once_eq callLift_unguarded_def eval_defs)
  have c: "callLift pressed_once 2 Up = Inr pressed_once" by (rule callLift_pressed[OF a(2)])
  show ?thesis using a b c by (intro conjI)
qed

section \<open>The copy \<^verbatim>\<open>part_002\<close>: idle while the doors cycle\<close>


lemmas eval_part002 = button_exists_def callLift_part002_def timerFires_part002_def
  findNearestIdleLift_def findLoop.simps moveLift_def Let_def

lemma doors_opening_part002_eq:
  "doors_opening_part002 =
     \<lparr>floors = 3, lifts = 1, liftStates = [\<lparr>currentFloor = 2, status = Idle\<rparr>],
      floorCalls = [\<lparr>up = False, down = False\<rparr>, \<lparr>up = False, down = False\<rparr>,
                    \<lparr>up = True, down = False\<rparr>, \<lparr>up = False, down = False\<rparr>],
      pendingCalls = [],
      trips = [\<lparr>liftIndex = 0, targetFloor = 2, phase = AwaitOpen, timer = 2500\<rparr>]\<rparr>"
  by (simp add: doors_opening_part002_def sim_3_1_def eval_part002)

text \<open>
  The \<^verbatim>\<open>moveLift\<close> of \<^verbatim>\<open>part_002\<close> (84-104) sets the status to \<^verbatim>\<open>'idle'\<close>
  before the door cycle. So the lift, idle at floor 2 with its doors opening, is
  dispatched to floor 3 while the activation for floor 2 still waits for its door
  timers: two activations of \<^verbatim>\<open>moveLift\<close> are in flight for lift 0, one of them
  travelling.
\<close>

lemma part002_redispatch_during_doors:
  "valid_run_part002 sim_3_1 [Click 2 Up, Timer 0, Click 3 Down] \<and>
   status (liftStates doors_opening_part002 ! 0) = Idle \<and>
   trips doors_opening_part002 = [\<lparr>liftIndex = 0, targetFloor = 2, phase = AwaitOpen, timer = 2500\<rparr>] \<and>
   trips redispatched_part002 =
     [\<lparr>liftIndex = 0, targetFloor = 2, phase = AwaitOpen, timer = 2500\<rparr>,
      \<lparr>liftIndex = 0, targetFloor = 3, phase = AwaitMove, timer = 2000\<rparr>] \<and>
   \<not> distinct (map liftIndex (trips redispatched_part002))"
  by (simp add: redispatched_part002_def doors_opening_part002_def sim_3_1_def eval_part002)



section \<open>Dispatch goes to idle lifts only\<close>

lemma split_at: "k < length ts \<Longrightarrow> ts = take k ts @ ts ! k # drop (Suc k) ts"
  by (rule id_take_nth_drop)

lemma update_at: "k < length ts \<Longrightarrow> ts[k := x] = take k ts @ x # drop (Suc k) ts"
  by (rule upd_conv_take_nth_drop)

lemma inv_part002_init: "LiftSimulation_new nf nl = Inr s \<Longrightarrow> inv_part002 s"
  by (auto simp: LiftSimulation_new_def inv_part002_def wf_lifts_def split: if_splits)

lemma inv_part002_flag: "inv_part002 s \<Longrightarrow> inv_part002 (s\<lparr>floorCalls := fc\<rparr>)"
  by (simp add: inv_part002_def wf_lifts_def)

lemma inv_part002_moveLift:
  assumes "inv_part002 s" "i < length (liftStates s)" "idle_at s i"
  shows "inv_part002 (moveLift s (int i) f)"
proof -
  have notin: "i \<notin> liftIndex ` set (filter travelling (trips s))"
    using assms by (auto simp: inv_part002_def idle_at_def)
  show ?thesis
    using assms(1,2) notin
    by (auto simp: moveLift_valid inv_part002_def wf_lifts_def nth_list_update travelling_def)
qed

lemma callLift_part002_cases:
  assumes "wf_lifts s" "0 \<le> f" "nat f < length (floorCalls s)"
  shows "(\<not> some_idle s \<and>
          callLift_part002 s f d =
            Inr (s\<lparr>floorCalls := (floorCalls s)[nat f := setFlag (floorCalls s ! nat f) d True]\<rparr>)) \<or>
         (\<exists>i. nearest_idle s f i \<and>
          callLift_part002 s f d =
            Inr (moveLift (s\<lparr>floorCalls := (floorCalls s)[nat f := setFlag (floorCalls s ! nat f) d True]\<rparr>)
                   (int i) f))"
proof -
  let ?s1 = "s\<lparr>floorCalls := (floorCalls s)[nat f := setFlag (floorCalls s ! nat f) d True]\<rparr>"
  have fc: "findNearestIdleLift ?s1 f = findNearestIdleLift s f"
    by (rule find_cong[OF assms(1)]) simp_all
  show ?thesis
  proof (cases "some_idle s")
    case False
    from find_none[OF assms(1) False, of f] fc assms(2,3) False show ?thesis
      by (simp add: callLift_part002_def Let_def)
  next
    case True
    then obtain i where i: "nearest_idle s f i" using some_idle_nearest[OF assms(1)] by blast
    from find_some[OF assms(1) i] fc assms(2,3) i show ?thesis
      by (auto simp: callLift_part002_def Let_def)
  qed
qed

lemma inv_part002_callLift:
  assumes "inv_part002 s"
  shows "inv_part002 (state_of (callLift_part002 s f d))"
proof (cases "0 \<le> f \<and> nat f < length (floorCalls s)")
  case False
  then show ?thesis using assms by (auto simp: callLift_part002_def)
next
  case True
  have w: "wf_lifts s" using assms by (simp add: inv_part002_def)
  let ?s1 = "s\<lparr>floorCalls := (floorCalls s)[nat f := setFlag (floorCalls s ! nat f) d True]\<rparr>"
  have i1: "inv_part002 ?s1" by (rule inv_part002_flag[OF assms])
  from callLift_part002_cases[OF w, of f d] True
  consider "callLift_part002 s f d = Inr ?s1"
    | i where "nearest_idle s f i" "callLift_part002 s f d = Inr (moveLift ?s1 (int i) f)"
    by blast
  then show ?thesis
  proof cases
    case 1
    then show ?thesis using i1 by simp
  next
    case 2
    then have "i < length (liftStates ?s1)" "idle_at ?s1 i" by (simp_all add: nearest_idle_def idle_at_def)
    from inv_part002_moveLift[OF i1 this] 2(2) show ?thesis by simp
  qed
qed

lemma inv_part002_timer:
  assumes "inv_part002 s" "k < length (trips s)"
  shows "inv_part002 (state_of (timerFires_part002 s k))"
proof -
  let ?t = "trips s ! k"
  let ?i = "liftIndex ?t"
  let ?A = "take k (trips s)"
  let ?B = "drop (Suc k) (trips s)"
  have ts: "trips s = ?A @ ?t # ?B" by (rule split_at[OF assms(2)])
  have tk: "?t \<in> set (trips s)" using assms(2) by simp
  then have i: "?i < length (liftStates s)" using assms(1) by (simp add: inv_part002_def)
  have sub: "set ?A \<subseteq> set (trips s)" "set ?B \<subseteq> set (trips s)"
    by (auto dest: in_set_takeD in_set_dropD)
  have w: "wf_lifts s" using assms(1) by (simp add: inv_part002_def)
  have d: "distinct (map liftIndex (filter travelling (?A @ ?t # ?B)))"
    and st: "\<forall>j < length (liftStates s).
          (status (liftStates s ! j) = Moving) = (j \<in> liftIndex ` set (filter travelling (?A @ ?t # ?B)))"
    using assms(1) ts by (simp_all add: inv_part002_def)
  have idx: "\<forall>t \<in> set (trips s). liftIndex t < length (liftStates s)"
    using assms(1) by (simp add: inv_part002_def)
  show ?thesis
  proof (cases "phase ?t")
    case AwaitMove
    let ?t' = "?t\<lparr>phase := AwaitOpen, timer := 2500\<rparr>"
    let ?s' = "s\<lparr>liftStates := (liftStates s)[?i := (liftStates s ! ?i)\<lparr>currentFloor := targetFloor ?t, status := Idle\<rparr>],
                 trips := ?A @ ?t' # ?B\<rparr>"
    have e: "timerFires_part002 s k = Inr ?s'"
      using assms(2) i AwaitMove by (simp add: timerFires_part002_def Let_def update_at)
    have tr: "travelling ?t" "\<not> travelling ?t'" using AwaitMove by (simp_all add: travelling_def)
    have "inv_part002 ?s'"
      unfolding inv_part002_def
      using w idx sub d st tr i tk
      by (auto simp: wf_lifts_def nth_list_update)
    then show ?thesis by (simp add: e)
  next
    case AwaitOpen
    let ?t' = "?t\<lparr>phase := AwaitClose, timer := 2500\<rparr>"
    let ?s' = "s\<lparr>trips := ?A @ ?t' # ?B\<rparr>"
    have e: "timerFires_part002 s k = Inr ?s'"
      using assms(2) i AwaitOpen by (simp add: timerFires_part002_def Let_def update_at)
    have tr: "\<not> travelling ?t" "\<not> travelling ?t'" using AwaitOpen by (simp_all add: travelling_def)
    have "inv_part002 ?s'"
      unfolding inv_part002_def
      using w idx sub d st tr i tk
      by (auto simp: wf_lifts_def)
    then show ?thesis by (simp add: e)
  next
    case AwaitClose
    let ?s1 = "s\<lparr>trips := ?A @ ?B\<rparr>"
    have tr: "\<not> travelling ?t" using AwaitClose by (simp add: travelling_def)
    have i1: "inv_part002 ?s1"
      unfolding inv_part002_def
      using w idx sub d st tr
      by (auto simp: wf_lifts_def)
    have "state_of (timerFires_part002 s k) = ?s1 \<or>
          (\<exists>fc. state_of (timerFires_part002 s k) = ?s1\<lparr>floorCalls := fc\<rparr>)"
      using assms(2) i AwaitClose by (auto simp: timerFires_part002_def Let_def)
    then show ?thesis using i1 inv_part002_flag[OF i1] by auto
  qed
qed

lemma reachable_part002_inv: "reachable_part002 s \<Longrightarrow> inv_part002 s"
proof (induction rule: reachable_part002.induct)
  case (init_part002 nf nl s)
  then show ?case by (rule inv_part002_init)
next
  case (next_part002 s e)
  then show ?case by (cases e) (simp_all add: inv_part002_callLift inv_part002_timer)
qed


lemma dispatched_idle_moveLift:
  assumes "i < length (liftStates a)" "idle_at a i" "trips b = trips a" "liftStates b = liftStates a"
  shows "dispatched_idle a (moveLift b (int i) f)"
  unfolding dispatched_idle_def
  using assms by (intro disjI2 exI[of _ i] exI[of _ f]) (simp add: moveLift_valid)

lemma dispatched_idle_same: "trips b = trips a \<Longrightarrow> liftStates b = liftStates a \<Longrightarrow> dispatched_idle a b"
  by (simp add: dispatched_idle_def)

lemma callLift_dispatched_idle:
  assumes "wf_lifts s"
  shows "dispatched_idle s (state_of (callLift s f d))"
proof (cases "0 \<le> f \<and> nat f < length (floorCalls s) \<and> \<not> getFlag (floorCalls s ! nat f) d")
  case False
  then show ?thesis by (auto simp: callLift_def intro: dispatched_idle_same)
next
  case True
  show ?thesis
  proof (cases "some_idle s")
    case False
    from callLift_enqueue[OF assms _ _ _ False, of f d] True show ?thesis
      by (simp add: dispatched_idle_same)
  next
    case si: True
    then obtain i where i: "nearest_idle s f i" using some_idle_nearest[OF assms] by blast
    from callLift_dispatch[OF assms _ _ _ i, of d] True
    have "state_of (callLift s f d) =
        moveLift (s\<lparr>floorCalls := (floorCalls s)[nat f := setFlag (floorCalls s ! nat f) d True]\<rparr>) (int i) f"
      by simp
    moreover have "i < length (liftStates s)" "idle_at s i" using i by (simp_all add: nearest_idle_def)
    ultimately show ?thesis by (simp add: dispatched_idle_moveLift)
  qed
qed

lemma checkPendingCalls_dispatched_idle:
  assumes "wf_lifts a"
  shows "dispatched_idle a (state_of (checkPendingCalls a))"
proof (cases "pendingCalls a")
  case Nil
  then show ?thesis by (simp add: checkPendingCalls_empty dispatched_idle_same)
next
  case (Cons c rest)
  show ?thesis
  proof (cases "some_idle a")
    case False
    from checkPendingCalls_requeue[OF assms Cons False] show ?thesis
      by (simp add: dispatched_idle_same)
  next
    case True
    then obtain i where i: "nearest_idle a (floor c) i" using some_idle_nearest[OF assms] by blast
    then have "i < length (liftStates a)" "idle_at a i" by (simp_all add: nearest_idle_def)
    then show ?thesis
      using checkPendingCalls_dispatch[OF assms Cons i] by (simp add: dispatched_idle_moveLift)
  qed
qed

lemma callLift_part002_dispatched_idle:
  assumes "wf_lifts s"
  shows "dispatched_idle s (state_of (callLift_part002 s f d))"
proof (cases "0 \<le> f \<and> nat f < length (floorCalls s)")
  case False
  then show ?thesis by (auto simp: callLift_part002_def intro: dispatched_idle_same)
next
  case True
  let ?s1 = "s\<lparr>floorCalls := (floorCalls s)[nat f := setFlag (floorCalls s ! nat f) d True]\<rparr>"
  from callLift_part002_cases[OF assms, of f d] True
  consider "callLift_part002 s f d = Inr ?s1"
    | i where "nearest_idle s f i" "callLift_part002 s f d = Inr (moveLift ?s1 (int i) f)"
    by blast
  then show ?thesis
  proof cases
    case 1
    then show ?thesis by (simp add: dispatched_idle_same)
  next
    case 2
    then have "i < length (liftStates s)" "idle_at s i" by (simp_all add: nearest_idle_def)
    then show ?thesis using 2(2) by (simp add: dispatched_idle_moveLift)
  qed
qed

lemma timer_no_dispatch:
  assumes "k < length (trips s)" "liftIndex (trips s ! k) < length (liftStates s)"
    "phase (trips s ! k) \<noteq> AwaitClose"
  shows "map liftIndex (trips (step s (Timer k))) = map liftIndex (trips s)"
  using assms
  by (cases "phase (trips s ! k)")
     (simp_all add: timerFires_AwaitMove timerFires_AwaitOpen trips_update_same_index)

text \<open>
  Dispatch in main.js. \<^verbatim>\<open>callLift\<close> and \<^verbatim>\<open>checkPendingCalls\<close>, the two callers of
  \<^verbatim>\<open>moveLift\<close>, dispatch at most one lift, and that lift is idle in the state in which
  they run. The last door timer of a trip runs \<^verbatim>\<open>checkPendingCalls\<close> on the state
  \<open>arrived\<close>; the other timers dispatch nothing. In every reachable state of main.js no
  two activations of \<^verbatim>\<open>moveLift\<close> belong to one lift, and a lift has an activation
  exactly when its status is \<^verbatim>\<open>'moving'\<close>. The copy \<^verbatim>\<open>part_002\<close>, whose
  \<^verbatim>\<open>moveLift\<close> sets the status to \<^verbatim>\<open>'idle'\<close> on arrival, keeps less: its
  \<^verbatim>\<open>callLift\<close> dispatches lifts whose status is \<^verbatim>\<open>'idle'\<close> only, and no two
  activations that still wait for their travel timer belong to one lift.
\<close>

lemma dispatch_only_to_idle:
  "(wf_lifts s \<longrightarrow> dispatched_idle s (state_of (callLift s f d))) \<and>
   (wf_lifts s \<longrightarrow> dispatched_idle s (state_of (checkPendingCalls s))) \<and>
   (reachable s \<and> k < length (trips s) \<and> phase (trips s ! k) = AwaitClose \<longrightarrow>
      wf_lifts (arrived s k) \<and> step s (Timer k) = state_of (checkPendingCalls (arrived s k))) \<and>
   (reachable s \<and> k < length (trips s) \<and> phase (trips s ! k) \<noteq> AwaitClose \<longrightarrow>
      map liftIndex (trips (step s (Timer k))) = map liftIndex (trips s)) \<and>
   (reachable s \<longrightarrow>
      distinct (map liftIndex (trips s)) \<and>
      (\<forall>i < length (liftStates s).
          (status (liftStates s ! i) = Moving) = (i \<in> liftIndex ` set (trips s)))) \<and>
   (wf_lifts s \<longrightarrow> dispatched_idle s (state_of (callLift_part002 s f d))) \<and>
   (reachable_part002 s \<longrightarrow>
      distinct (map liftIndex (filter travelling (trips s))) \<and>
      (\<forall>i < length (liftStates s).
          (status (liftStates s ! i) = Moving) = (i \<in> liftIndex ` set (filter travelling (trips s)))))"
proof (intro conjI impI)
  assume "wf_lifts s"
  then show "dispatched_idle s (state_of (callLift s f d))"
    "dispatched_idle s (state_of (checkPendingCalls s))"
    "dispatched_idle s (state_of (callLift_part002 s f d))"
    by (rule callLift_dispatched_idle checkPendingCalls_dispatched_idle callLift_part002_dispatched_idle)+
next
  assume a: "reachable s \<and> k < length (trips s) \<and> phase (trips s ! k) = AwaitClose"
  then have core: "core_inv s" using reachable_inv by (simp add: state_inv_def)
  from a have k: "k < length (trips s)" by simp
  then have tk: "trips s ! k \<in> set (trips s)" by simp
  then have i: "liftIndex (trips s ! k) < length (liftStates s)"
    and g: "0 \<le> targetFloor (trips s ! k)" "nat (targetFloor (trips s ! k)) < length (floorCalls s)"
    using core by (auto simp: core_inv_def)
  show "wf_lifts (arrived s k)" using core_inv_arrived[OF core k] by (simp add: core_inv_def)
  show "step s (Timer k) = state_of (checkPendingCalls (arrived s k))"
    using timerFires_AwaitClose[OF k i _ g] a by simp
next
  assume a: "reachable s \<and> k < length (trips s) \<and> phase (trips s ! k) \<noteq> AwaitClose"
  then have core: "core_inv s" using reachable_inv by (simp add: state_inv_def)
  then have "liftIndex (trips s ! k) < length (liftStates s)" using a by (simp add: core_inv_def)
  with a show "map liftIndex (trips (step s (Timer k))) = map liftIndex (trips s)"
    using timer_no_dispatch by blast
next
  assume "reachable s"
  then have core: "core_inv s" using reachable_inv by (simp add: state_inv_def)
  then show "distinct (map liftIndex (trips s))"
    "\<forall>i < length (liftStates s).
          (status (liftStates s ! i) = Moving) = (i \<in> liftIndex ` set (trips s))"
    by (simp_all add: core_inv_def)
next
  assume "reachable_part002 s"
  then have "inv_part002 s" by (rule reachable_part002_inv)
  then show "distinct (map liftIndex (filter travelling (trips s)))"
    "\<forall>i < length (liftStates s).
          (status (liftStates s ! i) = Moving) = (i \<in> liftIndex ` set (filter travelling (trips s)))"
    by (simp_all add: inv_part002_def)
qed


lemma valid_run_reachable_part002:
  "reachable_part002 s \<Longrightarrow> valid_run_part002 s es \<Longrightarrow> reachable_part002 (run_part002 s es)"
  by (induction es arbitrary: s) (auto intro: reachable_part002.next_part002)

lemma redispatched_part002_reachable: "reachable_part002 redispatched_part002"
  unfolding redispatched_part002_def
  by (rule valid_run_reachable_part002)
     (simp_all add: reachable_part002.init_part002[of 3 1] LiftSimulation_new_def sim_3_1_def
        eval_nat_numeral eval_part002)

lemma redispatched_part002_eq:
  "redispatched_part002 =
     \<lparr>floors = 3, lifts = 1, liftStates = [\<lparr>currentFloor = 2, status = Moving\<rparr>],
      floorCalls = [\<lparr>up = False, down = False\<rparr>, \<lparr>up = False, down = False\<rparr>,
                    \<lparr>up = True, down = False\<rparr>, \<lparr>up = False, down = True\<rparr>],
      pendingCalls = [],
      trips = [\<lparr>liftIndex = 0, targetFloor = 2, phase = AwaitOpen, timer = 2500\<rparr>,
               \<lparr>liftIndex = 0, targetFloor = 3, phase = AwaitMove, timer = 2000\<rparr>]\<rparr>"
  by (simp add: redispatched_part002_def sim_3_1_def eval_part002)

lemma dispatch_only_to_idle_example:
  "wf_lifts sim_3_1 \<and> idle_at sim_3_1 0 \<and> dispatched_idle sim_3_1 (state_of (callLift sim_3_1 2 Up)) \<and>
   trips (state_of (callLift sim_3_1 2 Up)) =
     [\<lparr>liftIndex = 0, targetFloor = 2, phase = AwaitMove, timer = 2000\<rparr>] \<and>
   reachable two_queued \<and> phase (trips two_queued ! 0) = AwaitClose \<and>
   wf_lifts (arrived two_queued 0) \<and> idle_at (arrived two_queued 0) 0 \<and>
   step two_queued (Timer 0) = state_of (checkPendingCalls (arrived two_queued 0)) \<and>
   dispatched_idle (arrived two_queued 0) (step two_queued (Timer 0)) \<and>
   distinct (map liftIndex (trips two_queued)) \<and>
   status (liftStates two_queued ! 0) = Moving \<and>
   wf_lifts doors_opening_part002 \<and> idle_at doors_opening_part002 0 \<and>
   dispatched_idle doors_opening_part002 (state_of (callLift_part002 doors_opening_part002 3 Down)) \<and>
   reachable_part002 redispatched_part002 \<and>
   distinct (map liftIndex (filter travelling (trips redispatched_part002))) \<and>
   status (liftStates redispatched_part002 ! 0) = Moving"
proof -
  have w: "wf_lifts sim_3_1" "idle_at sim_3_1 0" "wf_lifts doors_opening_part002"
    "idle_at doors_opening_part002 0"
    by (simp_all add: wf_lifts_def idle_at_def sim_3_1_def doors_opening_part002_eq)
  have tr: "trips (state_of (callLift sim_3_1 2 Up)) =
     [\<lparr>liftIndex = 0, targetFloor = 2, phase = AwaitMove, timer = 2000\<rparr>]"
    by (simp add: sim_3_1_def eval_defs)
  have ia: "idle_at (arrived two_queued 0) 0" by (simp add: arrived_two_queued idle_at_def)
  have h: "reachable two_queued \<and> 0 < length (trips two_queued) \<and>
           phase (trips two_queued ! 0) = AwaitClose"
    by (intro conjI two_queued_reachable two_queued_facts)
  have l: "0 < length (liftStates two_queued)" "0 < length (liftStates redispatched_part002)"
    by (simp_all add: two_queued_eq redispatched_part002_eq)
  have m: "(0::nat) \<in> liftIndex ` set (trips two_queued)"
    "(0::nat) \<in> liftIndex ` set (filter travelling (trips redispatched_part002))"
    by (simp_all add: two_queued_eq redispatched_part002_eq travelling_def)
  note A = dispatch_only_to_idle[of sim_3_1 2 Up 0]
  note B = dispatch_only_to_idle[of two_queued 2 Up 0]
  note C = dispatch_only_to_idle[of "arrived two_queued 0" 2 Up 0]
  note D = dispatch_only_to_idle[of doors_opening_part002 3 Down 0]
  note E = dispatch_only_to_idle[of redispatched_part002 3 Down 0]
  from A[THEN conjunct1, THEN mp, OF w(1)]
  have c1: "dispatched_idle sim_3_1 (state_of (callLift sim_3_1 2 Up))" .
  from B[THEN conjunct2, THEN conjunct2, THEN conjunct1, THEN mp, OF h]
  have c3: "wf_lifts (arrived two_queued 0)"
    "step two_queued (Timer 0) = state_of (checkPendingCalls (arrived two_queued 0))"
    by blast+
  from C[THEN conjunct2, THEN conjunct1, THEN mp, OF c3(1)]
  have c2: "dispatched_idle (arrived two_queued 0) (step two_queued (Timer 0))"
    unfolding c3(2) .
  from B[THEN conjunct2, THEN conjunct2, THEN conjunct2, THEN conjunct2, THEN conjunct1, THEN mp,
      OF two_queued_reachable] l(1) m(1)
  have c5: "distinct (map liftIndex (trips two_queued))" "status (liftStates two_queued ! 0) = Moving"
    by blast+
  from D[THEN conjunct2, THEN conjunct2, THEN conjunct2, THEN conjunct2, THEN conjunct2,
      THEN conjunct1, THEN mp, OF w(3)]
  have c6: "dispatched_idle doors_opening_part002 (state_of (callLift_part002 doors_opening_part002 3 Down))" .
  from E[THEN conjunct2, THEN conjunct2, THEN conjunct2, THEN conjunct2, THEN conjunct2,
      THEN conjunct2, THEN mp, OF redispatched_part002_reachable] l(2) m(2)
  have c7: "distinct (map liftIndex (filter travelling (trips redispatched_part002)))"
    "status (liftStates redispatched_part002 ! 0) = Moving"
    by blast+
  show ?thesis
    using w tr two_queued_reachable two_queued_facts(6) c3 ia c2 c5 c1 c6
      redispatched_part002_reachable c7
    by (intro conjI)
qed


section \<open>Dispatch in \<^verbatim>\<open>part_002\<close> while the doors cycle\<close>

text \<open>
  Claim C7 on the \<^verbatim>\<open>moveLift\<close> of \<^verbatim>\<open>part_002\<close> (84-104), which sets the status to
  \<^verbatim>\<open>'idle'\<close> before the door cycle: with 3 floors and 1 lift, after the click (2, up)
  and the travel timer the lift is at floor 2 with the status \<^verbatim>\<open>'idle'\<close> while its
  activation waits for the first door timer. The click (3, down) then dispatches the lift
  to floor 3: lift 0 has two activations of \<^verbatim>\<open>moveLift\<close> in flight, one in its door
  cycle at floor 2 and one travelling to floor 3. In main.js the same events leave the
  lift with the status \<^verbatim>\<open>'moving'\<close> and its one activation, and the call (3, down)
  is queued.
\<close>

theorem part002_dispatch_during_door_cycle:
  "LiftSimulation_new 3 1 = Inr sim_3_1 \<and>
   valid_run_part002 sim_3_1 [Click 2 Up, Timer 0, Click 3 Down] \<and>
   liftStates doors_opening_part002 = [\<lparr>currentFloor = 2, status = Idle\<rparr>] \<and>
   trips doors_opening_part002 = [\<lparr>liftIndex = 0, targetFloor = 2, phase = AwaitOpen, timer = 2500\<rparr>] \<and>
   callLift_part002 doors_opening_part002 3 Down = Inr redispatched_part002 \<and>
   liftStates redispatched_part002 = [\<lparr>currentFloor = 2, status = Moving\<rparr>] \<and>
   trips redispatched_part002 =
     [\<lparr>liftIndex = 0, targetFloor = 2, phase = AwaitOpen, timer = 2500\<rparr>,
      \<lparr>liftIndex = 0, targetFloor = 3, phase = AwaitMove, timer = 2000\<rparr>] \<and>
   \<not> distinct (map liftIndex (trips redispatched_part002)) \<and>
   valid_run sim_3_1 [Click 2 Up, Timer 0, Click 3 Down] \<and>
   liftStates (run sim_3_1 [Click 2 Up, Timer 0]) = [\<lparr>currentFloor = 2, status = Moving\<rparr>] \<and>
   trips (run sim_3_1 [Click 2 Up, Timer 0, Click 3 Down]) =
     [\<lparr>liftIndex = 0, targetFloor = 2, phase = AwaitOpen, timer = 2500\<rparr>] \<and>
   pendingCalls (run sim_3_1 [Click 2 Up, Timer 0, Click 3 Down]) = [\<lparr>floor = 3, direction = Down\<rparr>]"
proof -
  have i: "LiftSimulation_new 3 1 = Inr sim_3_1"
    by (simp add: LiftSimulation_new_def sim_3_1_def eval_nat_numeral)
  have v: "valid_run_part002 sim_3_1 [Click 2 Up, Timer 0, Click 3 Down]"
    by (simp add: sim_3_1_def eval_part002)
  have a: "liftStates doors_opening_part002 = [\<lparr>currentFloor = 2, status = Idle\<rparr>]"
    "trips doors_opening_part002 = [\<lparr>liftIndex = 0, targetFloor = 2, phase = AwaitOpen, timer = 2500\<rparr>]"
    by (simp_all add: doors_opening_part002_eq)
  have c: "callLift_part002 doors_opening_part002 3 Down = Inr redispatched_part002"
    by (simp add: doors_opening_part002_eq redispatched_part002_eq eval_part002)
  have b: "liftStates redispatched_part002 = [\<lparr>currentFloor = 2, status = Moving\<rparr>]"
    "trips redispatched_part002 =
     [\<lparr>liftIndex = 0, targetFloor = 2, phase = AwaitOpen, timer = 2500\<rparr>,
      \<lparr>liftIndex = 0, targetFloor = 3, phase = AwaitMove, timer = 2000\<rparr>]"
    "\<not> distinct (map liftIndex (trips redispatched_part002))"
    by (simp_all add: redispatched_part002_eq)
  have m: "valid_run sim_3_1 [Click 2 Up, Timer 0, Click 3 Down]"
    "liftStates (run sim_3_1 [Click 2 Up, Timer 0]) = [\<lparr>currentFloor = 2, status = Moving\<rparr>]"
    "trips (run sim_3_1 [Click 2 Up, Timer 0, Click 3 Down]) =
       [\<lparr>liftIndex = 0, targetFloor = 2, phase = AwaitOpen, timer = 2500\<rparr>]"
    "pendingCalls (run sim_3_1 [Click 2 Up, Timer 0, Click 3 Down]) = [\<lparr>floor = 3, direction = Down\<rparr>]"
    by (simp_all add: sim_3_1_def eval_defs)
  show ?thesis using i v a c b m by (intro conjI)
qed


section \<open>The start button\<close>


text \<open>
  C9 as stated fails on the start button of \<^verbatim>\<open>part_001\<close>: with 10 floors and 1 lift it
  shows no message and constructs the simulation.
\<close>

theorem start_part001_counterexample:
  "errorMessage (startSimulation_part001 (Some 10) (Some 1) empty_page) = [] \<and>
   simulation (startSimulation_part001 (Some 10) (Some 1) empty_page) \<noteq> None \<and>
   simulation (startSimulation (Some 10) (Some 1) empty_page) = None"
  by (simp add: startSimulation_part001_def startSimulation_def createInitialState_def empty_page_def)

lemma LiftSimulation_new_valid:
  "0 \<le> nl \<Longrightarrow> nl < 4294967296 \<Longrightarrow> - 1 \<le> nf \<Longrightarrow> nf < 4294967295 \<Longrightarrow>
   \<exists>s. LiftSimulation_new nf nl = Inr s \<and> floors s = nf \<and> lifts s = nl \<and>
       pendingCalls s = [] \<and> trips s = []"
  by (simp add: LiftSimulation_new_def)

lemma createInitialState_valid:
  "0 \<le> nl \<Longrightarrow> nl < 4294967296 \<Longrightarrow> - 1 \<le> nf \<Longrightarrow> nf < 4294967295 \<Longrightarrow>
   \<exists>s. createInitialState nf nl = Inr s \<and> floors s = nf \<and> lifts s = nl \<and>
       pendingCalls s = [] \<and> trips s = []"
  by (simp add: createInitialState_def)

text \<open>
  Claim C9, as amended. The start button of main.js: when the floors input is not a
  number or is outside \<open>2 .. 9\<close> the floors message is shown and nothing else changes; else
  when the lifts input is not a number or is outside \<open>1 .. 5\<close> the lifts message is shown
  and nothing else changes; else the message is cleared and the simulation is
  constructed. The start button of \<^verbatim>\<open>part_001\<close> refuses in the same way an input that is
  not a number, floors below 2 and lifts below 1, and has no upper bound: for every other
  input (below the largest array length) it clears the message and constructs the state.
\<close>

theorem start_button_validation:
  "((floorsIn = None \<or> (\<exists>n. floorsIn = Some n \<and> (n < 2 \<or> 9 < n))) \<longrightarrow>
      startSimulation floorsIn liftsIn p =
        p\<lparr>errorMessage := ''Please enter a valid number of floors (2-9).''\<rparr>) \<and>
   ((\<exists>n. floorsIn = Some n \<and> 2 \<le> n \<and> n \<le> 9) \<and>
    (liftsIn = None \<or> (\<exists>n. liftsIn = Some n \<and> (n < 1 \<or> 5 < n))) \<longrightarrow>
      startSimulation floorsIn liftsIn p =
        p\<lparr>errorMessage := ''Please enter a valid number of lifts (1-5).''\<rparr>) \<and>
   (2 \<le> nf \<and> nf \<le> 9 \<and> 1 \<le> nl \<and> nl \<le> 5 \<longrightarrow>
      (\<exists>s. LiftSimulation_new nf nl = Inr s \<and> floors s = nf \<and> lifts s = nl \<and>
           startSimulation (Some nf) (Some nl) p = p\<lparr>errorMessage := [], simulation := Some s\<rparr>)) \<and>
   ((floorsIn = None \<or> (\<exists>n. floorsIn = Some n \<and> n < 2)) \<longrightarrow>
      startSimulation_part001 floorsIn liftsIn p =
        p\<lparr>errorMessage := ''Please enter a valid number of floors (Atleast 2).''\<rparr>) \<and>
   ((\<exists>n. floorsIn = Some n \<and> 2 \<le> n) \<and> (liftsIn = None \<or> (\<exists>n. liftsIn = Some n \<and> n < 1)) \<longrightarrow>
      startSimulation_part001 floorsIn liftsIn p =
        p\<lparr>errorMessage := ''Please enter a valid number of lifts (Atleast 1).''\<rparr>) \<and>
   (2 \<le> nf \<and> nf < 4294967295 \<and> 1 \<le> nl \<and> nl < 4294967296 \<longrightarrow>
      (\<exists>s. createInitialState nf nl = Inr s \<and> floors s = nf \<and> lifts s = nl \<and>
           startSimulation_part001 (Some nf) (Some nl) p = p\<lparr>errorMessage := [], simulation := Some s\<rparr>))"
proof (intro conjI impI)
  assume "floorsIn = None \<or> (\<exists>n. floorsIn = Some n \<and> (n < 2 \<or> 9 < n))"
  then have "outside floorsIn 2 9" by auto
  then show "startSimulation floorsIn liftsIn p =
        p\<lparr>errorMessage := ''Please enter a valid number of floors (2-9).''\<rparr>"
    by (simp add: startSimulation_def)
next
  assume "(\<exists>n. floorsIn = Some n \<and> 2 \<le> n \<and> n \<le> 9) \<and>
    (liftsIn = None \<or> (\<exists>n. liftsIn = Some n \<and> (n < 1 \<or> 5 < n)))"
  then have "\<not> outside floorsIn 2 9" "outside liftsIn 1 5" by auto
  then show "startSimulation floorsIn liftsIn p =
        p\<lparr>errorMessage := ''Please enter a valid number of lifts (1-5).''\<rparr>"
    by (simp add: startSimulation_def)
next
  assume a: "2 \<le> nf \<and> nf \<le> 9 \<and> 1 \<le> nl \<and> nl \<le> 5"
  then obtain s where s: "LiftSimulation_new nf nl = Inr s" "floors s = nf" "lifts s = nl"
    using LiftSimulation_new_valid[of nl nf] by auto
  with a have "startSimulation (Some nf) (Some nl) p = p\<lparr>errorMessage := [], simulation := Some s\<rparr>"
    by (simp add: startSimulation_def)
  with s show "\<exists>s. LiftSimulation_new nf nl = Inr s \<and> floors s = nf \<and> lifts s = nl \<and>
           startSimulation (Some nf) (Some nl) p = p\<lparr>errorMessage := [], simulation := Some s\<rparr>"
    by blast
next
  assume "floorsIn = None \<or> (\<exists>n. floorsIn = Some n \<and> n < 2)"
  then have "below floorsIn 2" by auto
  then show "startSimulation_part001 floorsIn liftsIn p =
        p\<lparr>errorMessage := ''Please enter a valid number of floors (Atleast 2).''\<rparr>"
    by (simp add: startSimulation_part001_def)
next
  assume "(\<exists>n. floorsIn = Some n \<and> 2 \<le> n) \<and> (liftsIn = None \<or> (\<exists>n. liftsIn = Some n \<and> n < 1))"
  then have "\<not> below floorsIn 2" "below liftsIn 1" by auto
  then show "startSimulation_part001 floorsIn liftsIn p =
        p\<lparr>errorMessage := ''Please enter a valid number of lifts (Atleast 1).''\<rparr>"
    by (simp add: startSimulation_part001_def)
next
  assume a: "2 \<le> nf \<and> nf < 4294967295 \<and> 1 \<le> nl \<and> nl < 4294967296"
  then obtain s where s: "createInitialState nf nl = Inr s" "floors s = nf" "lifts s = nl"
    using createInitialState_valid[of nl nf] by auto
  with a have "startSimulation_part001 (Some nf) (Some nl) p = p\<lparr>errorMessage := [], simulation := Some s\<rparr>"
    by (simp add: startSimulation_part001_def)
  with s show "\<exists>s. createInitialState nf nl = Inr s \<and> floors s = nf \<and> lifts s = nl \<and>
           startSimulation_part001 (Some nf) (Some nl) p = p\<lparr>errorMessage := [], simulation := Some s\<rparr>"
    by blast
qed

theorem start_button_validation_witness:
  "startSimulation (Some 10) (Some 3) empty_page =
     empty_page\<lparr>errorMessage := ''Please enter a valid number of floors (2-9).''\<rparr> \<and>
   startSimulation None (Some 3) empty_page =
     empty_page\<lparr>errorMessage := ''Please enter a valid number of floors (2-9).''\<rparr> \<and>
   startSimulation (Some 5) (Some 6) empty_page =
     empty_page\<lparr>errorMessage := ''Please enter a valid number of lifts (1-5).''\<rparr> \<and>
   startSimulation (Some 3) (Some 1) (empty_page\<lparr>errorMessage := ''Please enter a valid number of lifts (1-5).''\<rparr>) =
     \<lparr>errorMessage = [], simulation = Some sim_3_1\<rparr> \<and>
   startSimulation_part001 (Some 1) (Some 3) empty_page =
     empty_page\<lparr>errorMessage := ''Please enter a valid number of floors (Atleast 2).''\<rparr> \<and>
   startSimulation_part001 (Some 5) (Some 0) empty_page =
     empty_page\<lparr>errorMessage := ''Please enter a valid number of lifts (Atleast 1).''\<rparr> \<and>
   floors (the (simulation (startSimulation_part001 (Some 10) (Some 1) empty_page))) = 10"
proof -
  let ?p = "empty_page\<lparr>errorMessage := ''Please enter a valid number of lifts (1-5).''\<rparr>"
  note A = start_button_validation[of "Some 10" "Some 3" empty_page 3 1]
  note B = start_button_validation[of None "Some 3" empty_page 3 1]
  note C = start_button_validation[of "Some 5" "Some 6" empty_page 3 1]
  note D = start_button_validation[of "Some 5" "Some 6" ?p 3 1]
  note E = start_button_validation[of "Some 1" "Some 3" empty_page 10 1]
  note F = start_button_validation[of "Some 5" "Some 0" empty_page 10 1]
  from A[THEN conjunct1] have a: "startSimulation (Some 10) (Some 3) empty_page =
     empty_page\<lparr>errorMessage := ''Please enter a valid number of floors (2-9).''\<rparr>" by simp
  from B[THEN conjunct1] have b: "startSimulation None (Some 3) empty_page =
     empty_page\<lparr>errorMessage := ''Please enter a valid number of floors (2-9).''\<rparr>" by simp
  from C[THEN conjunct2, THEN conjunct1] have c: "startSimulation (Some 5) (Some 6) empty_page =
     empty_page\<lparr>errorMessage := ''Please enter a valid number of lifts (1-5).''\<rparr>" by simp
  from D[THEN conjunct2, THEN conjunct2, THEN conjunct1]
  obtain s where s: "LiftSimulation_new 3 1 = Inr s"
    "startSimulation (Some 3) (Some 1) ?p = ?p\<lparr>errorMessage := [], simulation := Some s\<rparr>"
    by auto
  have "LiftSimulation_new 3 1 = Inr sim_3_1"
    by (simp add: LiftSimulation_new_def sim_3_1_def eval_nat_numeral)
  with s have d: "startSimulation (Some 3) (Some 1) ?p = \<lparr>errorMessage = [], simulation = Some sim_3_1\<rparr>"
    by (simp add: empty_page_def)
  from E[THEN conjunct2, THEN conjunct2, THEN conjunct2, THEN conjunct1]
  have e: "startSimulation_part001 (Some 1) (Some 3) empty_page =
     empty_page\<lparr>errorMessage := ''Please enter a valid number of floors (Atleast 2).''\<rparr>" by simp
  from F[THEN conjunct2, THEN conjunct2, THEN conjunct2, THEN conjunct2, THEN conjunct1]
  have f: "startSimulation_part001 (Some 5) (Some 0) empty_page =
     empty_page\<lparr>errorMessage := ''Please enter a valid number of lifts (Atleast 1).''\<rparr>" by simp
  from E[THEN conjunct2, THEN conjunct2, THEN conjunct2, THEN conjunct2, THEN conjunct2]
  have g: "floors (the (simulation (startSimulation_part001 (Some 10) (Some 1) empty_page))) = 10"
    by auto
  show ?thesis using a b c d e f g by (intro conjI)
qed

end
